theory Spec2Isabelle
  imports Main "HOL-Library.List_Lexorder" "HOL-Library.Extended_Nat" "HOL-Library.Multiset"
begin

section \<open>The pattern extractor: the compiled regular expression\<close>

text \<open>
  The source builds one regular expression in \<open>ProxyScraperChecker.__init__\<close> and applies
  it with \<open>finditer\<close> in \<open>fetch_source\<close>. The model has a small syntax of regular
  expressions with exactly the constructs the pattern uses, and a backtracking matcher in
  the manner of Python's \<open>re\<close>: the matcher returns every way a pattern can match from a
  position, in the order the engine tries them (first alternative first, greedy
  repetition longest first), so the head of the list is the match Python reports.

  Text is a \<open>string\<close>, a list of 8-bit characters. Among these the decimal digits
  (\<open>\<bsol>d\<close>) are exactly \<open>0\<close> to \<open>9\<close>.
\<close>

datatype re =
    Lit char              \<comment> \<open>a literal character, as \<open>\<bsol>.\<close> and \<open>:\<close>\<close>
  | Digit                 \<comment> \<open>\<open>\<bsol>d\<close>\<close>
  | NonDigit              \<comment> \<open>\<open>\<bsol>D\<close>\<close>
  | Range char char       \<comment> \<open>\<open>[a-b]\<close>\<close>
  | Bol                   \<comment> \<open>\<open>^\<close>\<close>
  | Eol                   \<comment> \<open>\<open>$\<close>\<close>
  | Seq re re             \<comment> \<open>concatenation\<close>
  | Alt re re             \<comment> \<open>\<open>a|b\<close>\<close>
  | Opt re                \<comment> \<open>greedy \<open>a?\<close>\<close>
  | Rep nat nat re        \<comment> \<open>greedy \<open>a{m,n}\<close>\<close>
  | Group nat re          \<comment> \<open>capturing group number k\<close>
  | NGroup re             \<comment> \<open>\<open>(?:a)\<close>\<close>

type_synonym caps = "nat \<Rightarrow> (nat \<times> nat) option"
type_synonym mstate = "nat \<times> caps"

definition is_digit :: "char \<Rightarrow> bool" where
  "is_digit c = (48 \<le> (of_char c :: nat) \<and> (of_char c :: nat) \<le> 57)"

definition in_range :: "char \<Rightarrow> char \<Rightarrow> char \<Rightarrow> bool" where
  "in_range a b c = ((of_char a :: nat) \<le> of_char c \<and> (of_char c :: nat) \<le> of_char b)"

definition one_char :: "string \<Rightarrow> (char \<Rightarrow> bool) \<Rightarrow> mstate \<Rightarrow> mstate list" where
  "one_char t P s = (if fst s < length t \<and> P (t ! fst s) then [(Suc (fst s), snd s)] else [])"

text \<open>Without the MULTILINE flag, \<open>$\<close> matches at the end of the text and just before a
  newline that ends the text.\<close>

definition at_eol :: "string \<Rightarrow> nat \<Rightarrow> bool" where
  "at_eol t i = (i = length t \<or> (Suc i = length t \<and> t ! i = CHR 0x0A))"

fun rep :: "(mstate \<Rightarrow> mstate list) \<Rightarrow> nat \<Rightarrow> nat \<Rightarrow> mstate \<Rightarrow> mstate list" where
  "rep m lo 0 s = (if lo = 0 then [s] else [])"
| "rep m lo (Suc hi) s =
     concat (map (rep m (lo - 1) hi) (m s)) @ (if lo = 0 then [s] else [])"

fun bt :: "string \<Rightarrow> re \<Rightarrow> mstate \<Rightarrow> mstate list" where
  "bt t (Lit c) s = one_char t (\<lambda>x. x = c) s"
| "bt t Digit s = one_char t is_digit s"
| "bt t NonDigit s = one_char t (\<lambda>x. \<not> is_digit x) s"
| "bt t (Range a b) s = one_char t (in_range a b) s"
| "bt t Bol s = (if fst s = 0 then [s] else [])"
| "bt t Eol s = (if at_eol t (fst s) then [s] else [])"
| "bt t (Seq r1 r2) s = concat (map (bt t r2) (bt t r1 s))"
| "bt t (Alt r1 r2) s = bt t r1 s @ bt t r2 s"
| "bt t (Opt r) s = bt t r s @ [s]"
| "bt t (Rep lo hi r) s = rep (bt t r) lo hi s"
| "bt t (Group k r) s = map (\<lambda>(j, g). (j, g(k \<mapsto> (fst s, j)))) (bt t r s)"
| "bt t (NGroup r) s = bt t r s"

text \<open>The pattern of lines 143 to 158, piece by piece.\<close>

definition dot :: re where
  "dot = Lit CHR ''.''"

definition octet1 :: re where
  \<comment> \<open>\<open>(?:[1-9]|[1-9]\<bsol>d|1\<bsol>d{2}|2[0-4]\<bsol>d|25[0-5])\<close>\<close>
  "octet1 = NGroup
     (Alt (Range CHR ''1'' CHR ''9'')
     (Alt (Seq (Range CHR ''1'' CHR ''9'') Digit)
     (Alt (Seq (Lit CHR ''1'') (Rep 2 2 Digit))
     (Alt (Seq (Lit CHR ''2'') (Seq (Range CHR ''0'' CHR ''4'') Digit))
          (Seq (Lit CHR ''2'') (Seq (Lit CHR ''5'') (Range CHR ''0'' CHR ''5'')))))))"

definition octet :: re where
  \<comment> \<open>\<open>(?:\<bsol>d|[1-9]\<bsol>d|1\<bsol>d{2}|2[0-4]\<bsol>d|25[0-5])\<close>\<close>
  "octet = NGroup
     (Alt Digit
     (Alt (Seq (Range CHR ''1'' CHR ''9'') Digit)
     (Alt (Seq (Lit CHR ''1'') (Rep 2 2 Digit))
     (Alt (Seq (Lit CHR ''2'') (Seq (Range CHR ''0'' CHR ''4'') Digit))
          (Seq (Lit CHR ''2'') (Seq (Lit CHR ''5'') (Range CHR ''0'' CHR ''5'')))))))"

definition port :: re where
  \<comment> \<open>\<open>(?:\<bsol>d|[1-9]\<bsol>d{1,3}|[1-5]\<bsol>d{4}|6[0-4]\<bsol>d{3}|65[0-4]\<bsol>d{2}|655[0-2]\<bsol>d|6553[0-5])\<close>\<close>
  "port = NGroup
     (Alt Digit
     (Alt (Seq (Range CHR ''1'' CHR ''9'') (Rep 1 3 Digit))
     (Alt (Seq (Range CHR ''1'' CHR ''5'') (Rep 4 4 Digit))
     (Alt (Seq (Lit CHR ''6'') (Seq (Range CHR ''0'' CHR ''4'') (Rep 3 3 Digit)))
     (Alt (Seq (Lit CHR ''6'') (Seq (Lit CHR ''5'')
            (Seq (Range CHR ''0'' CHR ''4'') (Rep 2 2 Digit))))
     (Alt (Seq (Lit CHR ''6'') (Seq (Lit CHR ''5'') (Seq (Lit CHR ''5'')
            (Seq (Range CHR ''0'' CHR ''2'') Digit))))
          (Seq (Lit CHR ''6'') (Seq (Lit CHR ''5'') (Seq (Lit CHR ''5'')
            (Seq (Lit CHR ''3'') (Range CHR ''0'' CHR ''5'')))))))))))"

definition ip_re :: re where
  "ip_re = Seq octet1 (Seq dot (Seq octet (Seq dot (Seq octet (Seq dot octet)))))"

definition regex :: re where
  \<comment> \<open>\<open>(?:^|\<bsol>D)?((ip):port)(?:\<bsol>D|$)\<close>\<close>
  "regex =
     Seq (Opt (NGroup (Alt Bol NonDigit)))
    (Seq (Group 1 (Seq (Group 2 ip_re) (Seq (Lit CHR '':'') port)))
         (NGroup (Alt NonDigit Eol)))"

text \<open>A match object: its span and the spans of its two groups.\<close>

record rmatch =
  m_start :: nat
  m_end :: nat
  span1 :: "nat \<times> nat"
  span2 :: "nat \<times> nat"

definition no_caps :: caps where
  "no_caps = (\<lambda>k. None)"

definition match_at :: "string \<Rightarrow> nat \<Rightarrow> rmatch option" where
  "match_at t i =
     (case bt t regex (i, no_caps) of
        [] \<Rightarrow> None
      | (j, g) # _ \<Rightarrow>
          (case (g 1, g 2) of
             (Some a, Some b) \<Rightarrow> Some \<lparr>m_start = i, m_end = j, span1 = a, span2 = b\<rparr>
           | _ \<Rightarrow> None))"

text \<open>
  \<open>finditer\<close> scans from the left: at each position it takes the first match the engine
  finds there, and after a match it resumes at the end of that match, so that matches do
  not overlap. A match of this pattern is never empty; the model steps over an empty one.
\<close>

function finditer_from :: "string \<Rightarrow> nat \<Rightarrow> rmatch list" where
  "finditer_from t i =
     (if length t < i then []
      else (case match_at t i of
              None \<Rightarrow> finditer_from t (Suc i)
            | Some m \<Rightarrow> m # finditer_from t (if i < m_end m then m_end m else Suc i)))"
  by pat_completeness auto
termination
  by (relation "measure (\<lambda>(t, i). Suc (length t) - i)") auto

definition finditer :: "string \<Rightarrow> rmatch list" where
  "finditer t = finditer_from t 0"

definition slice :: "string \<Rightarrow> nat \<times> nat \<Rightarrow> string" where
  \<comment> \<open>\<open>text[a:b]\<close>\<close>
  "slice t ab = take (snd ab - fst ab) (drop (fst ab) t)"

definition group1 :: "string \<Rightarrow> rmatch \<Rightarrow> string" where
  "group1 t m = slice t (span1 m)"

definition group2 :: "string \<Rightarrow> rmatch \<Rightarrow> string" where
  "group2 t m = slice t (span2 m)"

text \<open>The candidates of a text: the arguments \<open>fetch_source\<close> passes to \<open>Proxy\<close> for
  each match, \<open>(group(1), group(2))\<close>.\<close>

definition candidates :: "string \<Rightarrow> (string \<times> string) list" where
  "candidates t = map (\<lambda>m. (group1 t m, group2 t m)) (finditer t)"

subsection \<open>Reading matched text\<close>

text \<open>
  The claims about the extractor speak of the numbers a candidate is written with. A
  digit string is read as Python's \<open>int\<close> reads it (\<open>digits_value\<close>); it is plain when it
  is a non-empty run of digits with no leading zero. \<open>lang\<close> is the set of texts a group-free
  pattern can consume; it is used to reason about the matcher.
\<close>

definition dv :: "char \<Rightarrow> nat" where
  "dv c = of_char c - 48"

definition digits_value :: "string \<Rightarrow> nat" where
  "digits_value ds = foldl (\<lambda>n c. 10 * n + dv c) 0 ds"

definition plain_number :: "string \<Rightarrow> bool" where
  "plain_number ds = (ds \<noteq> [] \<and> list_all is_digit ds \<and> (1 < length ds \<longrightarrow> hd ds \<noteq> CHR ''0''))"

fun lpow :: "string set \<Rightarrow> nat \<Rightarrow> string set" where
  "lpow L 0 = {[]}"
| "lpow L (Suc n) = {x @ y | x y. x \<in> L \<and> y \<in> lpow L n}"

fun lang :: "re \<Rightarrow> string set" where
  "lang (Lit c) = {[c]}"
| "lang Digit = {[c] | c. is_digit c}"
| "lang NonDigit = {[c] | c. \<not> is_digit c}"
| "lang (Range a b) = {[c] | c. in_range a b c}"
| "lang Bol = {[]}"
| "lang Eol = {[]}"
| "lang (Seq r1 r2) = {x @ y | x y. x \<in> lang r1 \<and> y \<in> lang r2}"
| "lang (Alt r1 r2) = lang r1 \<union> lang r2"
| "lang (Opt r) = insert [] (lang r)"
| "lang (Rep lo hi r) = (\<Union>n \<in> {lo..hi}. lpow (lang r) n)"
| "lang (Group k r) = lang r"
| "lang (NGroup r) = lang r"

fun groupfree :: "re \<Rightarrow> bool" where
  "groupfree (Seq r1 r2) = (groupfree r1 \<and> groupfree r2)"
| "groupfree (Alt r1 r2) = (groupfree r1 \<and> groupfree r2)"
| "groupfree (Opt r) = groupfree r"
| "groupfree (Rep lo hi r) = groupfree r"
| "groupfree (Group k r) = False"
| "groupfree (NGroup r) = groupfree r"
| "groupfree _ = True"

definition octet_ok :: "string \<Rightarrow> bool" where
  "octet_ok x = (plain_number x \<and> digits_value x \<le> 255)"

definition port_ok :: "string \<Rightarrow> bool" where
  "port_ok x = (plain_number x \<and> digits_value x \<le> 65535)"

definition well_formed :: "string \<Rightarrow> rmatch \<Rightarrow> bool" where
  "well_formed t m =
     (\<exists>a b e. span1 m = (a, e) \<and> span2 m = (a, b) \<and> m_start m \<le> a \<and> a \<le> b \<and> b \<le> e \<and>
        e \<le> m_end m \<and> m_end m \<le> length t \<and> slice t (a, b) \<in> lang ip_re \<and>
        slice t (b, e) \<in> lang (Seq (Lit CHR '':'') port) \<and>
        (e = length t \<or> \<not> is_digit (t ! e)))"

definition candidate_shape :: "string \<times> string \<Rightarrow> bool" where
  "candidate_shape c =
     (\<exists>o1 o2 o3 o4 p.
        snd c = o1 @ ''.'' @ o2 @ ''.'' @ o3 @ ''.'' @ o4 \<and> fst c = snd c @ '':'' @ p \<and>
        octet_ok o1 \<and> 1 \<le> digits_value o1 \<and> octet_ok o2 \<and> octet_ok o3 \<and> octet_ok o4 \<and>
        port_ok p)"

section \<open>The Proxy entity\<close>

text \<open>
  \<open>class Proxy\<close> (lines 31 to 60). \<open>is_anonymous\<close> is \<open>None\<close> until a check fills it in.
  \<open>timeout\<close> holds seconds as a float in the source; the model counts the clock's ticks,
  and \<open>\<infinity>\<close> is \<open>float("inf")\<close>.
\<close>

record proxy =
  socket_address :: string
  ip :: string
  is_anonymous :: "bool option"
  geolocation :: string
  timeout :: enat

definition Proxy :: "string \<Rightarrow> string \<Rightarrow> proxy" where
  \<comment> \<open>\<open>Proxy.__init__\<close>\<close>
  "Proxy sa i =
     \<lparr>socket_address = sa, ip = i, is_anonymous = None, geolocation = ''|?|?|?'', timeout = \<infinity>\<rparr>"

text \<open>
  Exceptions and errors. An \<open>OSError\<close> carries its \<open>errno\<close>: 24 is "too many open
  files", and an OSError the operating system reports with \<open>errno\<close> 2 is a
  FileNotFoundError.
\<close>

datatype exc = OSError nat | TimeoutError | DecodeError | OtherException

datatype error = ValueError string | KeyError | AttributeError | Raised exc | Deadlock

text \<open>
  The value \<open>response.json()\<close> returns: any value a JSON text decodes to. A finite
  float is written with its sign, mantissa and exponent; a dict is the list of its items.
  \<open>truthy\<close> is the truth value Python gives to such a value.
\<close>

datatype pyval =
    PNone
  | PBool bool
  | PInt int
  | PFloat bool nat int
  | PInf bool
  | PNaN
  | PStr string
  | PList "pyval list"
  | PDict "(string \<times> pyval) list"

fun truthy :: "pyval \<Rightarrow> bool" where
  "truthy PNone = False"
| "truthy (PBool b) = b"
| "truthy (PInt i) = (i \<noteq> 0)"
| "truthy (PFloat negative mantissa exponent) = (mantissa \<noteq> 0)"
| "truthy (PInf negative) = True"
| "truthy PNaN = True"
| "truthy (PStr s) = (s \<noteq> [])"
| "truthy (PList xs) = (xs \<noteq> [])"
| "truthy (PDict items) = (items \<noteq> [])"

definition get_or :: "(string \<times> pyval) list \<Rightarrow> string \<Rightarrow> pyval \<Rightarrow> pyval" where
  \<comment> \<open>\<open>data.get(k) or d\<close>: a missing key and a falsy value both give the default\<close>
  "get_or items k d = (case map_of items k of None \<Rightarrow> d | Some v \<Rightarrow> if truthy v then v else d)"

text \<open>A value inside an f-string: a string stands for itself, any other value is passed
  through \<open>str\<close>, which is the parameter \<open>S\<close>.\<close>

definition fmt :: "(pyval \<Rightarrow> string) \<Rightarrow> pyval \<Rightarrow> string" where
  "fmt S v = (case v of PStr s \<Rightarrow> s | _ \<Rightarrow> S v)"

definition update :: "(pyval \<Rightarrow> string) \<Rightarrow> proxy \<Rightarrow> pyval \<Rightarrow> error + proxy" where
  \<comment> \<open>\<open>Proxy.update\<close>; only a dict has the method \<open>get\<close>\<close>
  "update S p data =
     (case data of
        PDict items \<Rightarrow>
          (let country = get_or items ''country'' (PStr ''?'');
               region = get_or items ''regionName'' (PStr ''?'');
               city = get_or items ''city'' (PStr ''?'')
           in Inr (p\<lparr>geolocation := ''|'' @ fmt S country @ ''|'' @ fmt S region @ ''|'' @ fmt S city,
                     is_anonymous := Some (map_of items ''query'' \<noteq> Some (PStr (ip p)))\<rparr>))
      | _ \<Rightarrow> Inl AttributeError)"

definition proxy_eq :: "proxy \<Rightarrow> proxy \<Rightarrow> bool" where
  \<comment> \<open>\<open>Proxy.__eq__\<close>, on two Proxy objects\<close>
  "proxy_eq p q = (socket_address p = socket_address q)"

text \<open>\<open>Proxy.__hash__\<close>. Python's hash of a tuple of strings is the parameter \<open>H\<close>.\<close>

definition proxy_hash :: "(string \<times> string \<Rightarrow> int) \<Rightarrow> proxy \<Rightarrow> int" where
  "proxy_hash H p = H (''socket_address'', socket_address p)"

subsection \<open>Python sets of Proxy objects\<close>

text \<open>
  A \<open>set[Proxy]\<close> is modelled by the list of its elements. An element is found in a set
  when its hash and then \<open>__eq__\<close> agree with a member's. Adding an element that is found
  leaves the set as it is; \<open>remove\<close> of an element that is not found raises KeyError.
\<close>

definition same_key :: "(string \<times> string \<Rightarrow> int) \<Rightarrow> proxy \<Rightarrow> proxy \<Rightarrow> bool" where
  "same_key H p q = (proxy_hash H p = proxy_hash H q \<and> proxy_eq p q)"

definition set_add :: "(string \<times> string \<Rightarrow> int) \<Rightarrow> proxy list \<Rightarrow> proxy \<Rightarrow> proxy list" where
  "set_add H s p = (if list_ex (\<lambda>q. same_key H q p) s then s else s @ [p])"

definition set_remove :: "(string \<times> string \<Rightarrow> int) \<Rightarrow> proxy list \<Rightarrow> proxy \<Rightarrow> error + proxy list" where
  "set_remove H s p =
     (if list_ex (\<lambda>q. same_key H q p) s then Inr (filter (\<lambda>q. \<not> same_key H q p) s)
      else Inl KeyError)"

section \<open>Folders and the checker object\<close>

type_synonym path = "string list"

record folder =
  path :: path
  for_anonymous :: bool
  for_geolocation :: bool

fun starts_with :: "string \<Rightarrow> string \<Rightarrow> bool" where
  "starts_with s [] = True"
| "starts_with [] (c # cs) = False"
| "starts_with (x # xs) (c # cs) = (x = c \<and> starts_with xs cs)"

fun py_in :: "string \<Rightarrow> string \<Rightarrow> bool" where
  \<comment> \<open>\<open>sub in s\<close> on strings\<close>
  "py_in sub [] = (sub = [])"
| "py_in sub (x # xs) = (starts_with (x # xs) sub \<or> py_in sub xs)"

definition Folder :: "path \<Rightarrow> string \<Rightarrow> folder" where
  \<comment> \<open>\<open>Folder.__init__\<close>\<close>
  "Folder p folder_name =
     \<lparr>path = p @ [folder_name],
      for_anonymous = py_in ''anon'' folder_name,
      for_geolocation = py_in ''geo'' folder_name\<rparr>"

definition path_name :: "path \<Rightarrow> string" where
  "path_name p = last p"

record checker =
  all_folders :: "folder list"
  enabled_folders :: "folder list"
  save_dir :: path
  proxies_count :: "(string \<times> nat) list"
  proxies :: "(string \<times> proxy list) list"
  sort_by_speed :: bool
  sources :: "(string \<times> string list) list"
  check_timeout :: nat
  sem :: int
  console :: "string list"

text \<open>\<open>str.splitlines\<close> on 8-bit text: the line boundaries are \<open>\<bsol>n\<close>, \<open>\<bsol>r\<close>, \<open>\<bsol>r\<bsol>n\<close>,
  \<open>\<bsol>v\<close>, \<open>\<bsol>f\<close>, \<open>\<bsol>x1c\<close>, \<open>\<bsol>x1d\<close>, \<open>\<bsol>x1e\<close> and \<open>\<bsol>x85\<close>.\<close>

definition line_boundary :: "char \<Rightarrow> bool" where
  "line_boundary c = (c \<in> set [CHR 0x0A, CHR 0x0B, CHR 0x0C, CHR 0x0D, CHR 0x1C, CHR 0x1D, CHR 0x1E, CHR 0x85])"

fun splitlines_from :: "string \<Rightarrow> string \<Rightarrow> string list" where
  "splitlines_from acc [] = (if acc = [] then [] else [rev acc])"
| "splitlines_from acc [c] = (if line_boundary c then [rev acc] else [rev (c # acc)])"
| "splitlines_from acc (c # d # cs) =
     (if c = CHR 0x0D \<and> d = CHR 0x0A then rev acc # splitlines_from [] cs
      else if line_boundary c then rev acc # splitlines_from [] (d # cs)
      else splitlines_from (c # acc) (d # cs))"

definition splitlines :: "string \<Rightarrow> string list" where
  "splitlines s = splitlines_from [] s"

text \<open>
  \<open>ProxyScraperChecker.__init__\<close> (lines 107 to 177), with the keyword parameters in the
  source's order. A \<open>frozenset\<close> of source lines is the list of the distinct lines.
\<close>

definition init ::
  "nat \<Rightarrow> int \<Rightarrow> bool \<Rightarrow> string \<Rightarrow> bool \<Rightarrow> bool \<Rightarrow> bool \<Rightarrow> bool \<Rightarrow>
   string option \<Rightarrow> string option \<Rightarrow> string option \<Rightarrow> error + checker" where
  "init timeout_arg max_connections sort_by_speed_arg save_path
        proxies_arg proxies_anonymous proxies_geolocation proxies_geolocation_anonymous
        http_sources socks4_sources socks5_sources =
     (let p = [save_path];
          folders_mapping =
            [(''proxies'', proxies_arg),
             (''proxies_anonymous'', proxies_anonymous),
             (''proxies_geolocation'', proxies_geolocation),
             (''proxies_geolocation_anonymous'', proxies_geolocation_anonymous)];
          all = map (\<lambda>(folder_name, flag). Folder p folder_name) folders_mapping;
          enabled = filter (\<lambda>f. map_of folders_mapping (path_name (path f)) = Some True) all
      in if enabled = [] then Inl (ValueError ''all folders are disabled in the config'')
         else
           (let srcs = concat (map (\<lambda>(proto, s).
                         (case s of None \<Rightarrow> []
                          | Some text \<Rightarrow> if text = [] then []
                              else [(proto, remdups (filter (\<lambda>l. l \<noteq> []) (splitlines text)))]))
                       [(''http'', http_sources), (''socks4'', socks4_sources),
                        (''socks5'', socks5_sources)])
            in if max_connections < 0
               then Inl (ValueError ''Semaphore initial value must be >= 0'')
               else Inr \<lparr>all_folders = all, enabled_folders = enabled, save_dir = p,
                         proxies_count = map (\<lambda>(proto, s). (proto, 0)) srcs,
                         proxies = map (\<lambda>(proto, s). (proto, [])) srcs,
                         sort_by_speed = sort_by_speed_arg, sources = srcs,
                         check_timeout = timeout_arg, sem = max_connections,
                         console = []\<rparr>))"

section \<open>The outside world\<close>

text \<open>
  What the network answers is a parameter of the model. A source fetch either raises (with
  the text of the exception) or delivers a status and a body. A check through a candidate
  either raises inside the \<open>try\<close> block of \<open>check_proxy\<close> (connector, connection, timeout,
  or \<open>response.json()\<close> on a body that does not decode), or completes with a status, the
  value \<open>response.json()\<close> returns (read only when the status is 200) and the elapsed time.

  The event loop runs the gathered coroutines one at a time and switches only at an
  \<open>await\<close>; each coroutine touches the shared sets and the console in one step after its
  last \<open>await\<close>. The model therefore runs them one after the other: the checks in the
  order \<open>shuffle\<close> leaves them in, the fetches in the order of the source lists.

  The file system is a parameter too. The output stage asks it to remove a tree, to make a
  directory with its parents, or to write a text file, and each request returns or raises;
  \<open>fs_answer\<close> gives the answer to a request from the requests made before it. What
  directories and files exist after a request is the file system's business and is not
  modelled. A path is kept as the source writes it: the save path, followed by the names
  joined to it.

  Lines 279 to 282 retrieve a file and lines 293 to 294 launch it; the specification
  keeps both out of the pipeline. The model records only their control flow: the lookup
  of the \<open>TEMP\<close> variable and the retrieval may raise.

  \<open>py_str\<close> is Python's \<open>str\<close> on a decoded value that is not a string.
\<close>

datatype fetch_result = FetchRaises string | FetchResponds nat string

datatype attempt = Raises exc | Responds nat pyval nat

datatype fs_call = Rmtree path | Mkdir path | WriteText path string

record env =
  http_get :: "string \<Rightarrow> fetch_result"
  probe :: "string \<Rightarrow> string \<Rightarrow> attempt"
  shuffle :: "(string \<times> proxy) list \<Rightarrow> (string \<times> proxy) list"
  temp_dir :: "string option"
  retrieve :: "exc option"
  fs_answer :: "fs_call list \<Rightarrow> fs_call \<Rightarrow> exc option"
  py_str :: "pyval \<Rightarrow> string"

definition dict_set :: "('k \<times> 'v) list \<Rightarrow> 'k \<Rightarrow> 'v \<Rightarrow> ('k \<times> 'v) list" where
  \<comment> \<open>\<open>d[k] = v\<close> for a key that is present\<close>
  "dict_set d k v = map (\<lambda>(k', v'). if k' = k then (k', v) else (k', v')) d"

section \<open>Fetching the sources\<close>

definition is_space :: "char \<Rightarrow> bool" where
  "is_space c = (c \<in> set [CHR 0x09, CHR 0x0A, CHR 0x0B, CHR 0x0C, CHR 0x0D, CHR 0x1C, CHR 0x1D,
                          CHR 0x1E, CHR 0x1F, CHR 0x20, CHR 0x85, CHR 0xA0])"

definition strip :: "string \<Rightarrow> string" where
  "strip s = rev (dropWhile is_space (rev (dropWhile is_space s)))"

fun digits_of :: "nat \<Rightarrow> nat \<Rightarrow> string" where
  "digits_of 0 n = []"
| "digits_of (Suc fuel) n =
     (if n < 10 then [char_of (48 + n)] else digits_of fuel (n div 10) @ [char_of (48 + n mod 10)])"

definition str_nat :: "nat \<Rightarrow> string" where
  \<comment> \<open>\<open>str(n)\<close>; a number has at most \<open>n + 1\<close> digits\<close>
  "str_nat n = digits_of (Suc n) n"

definition fetch_source ::
  "(string \<times> string \<Rightarrow> int) \<Rightarrow> env \<Rightarrow> checker \<Rightarrow> string \<Rightarrow> string \<Rightarrow> error + checker" where
  "fetch_source H w st source proto =
     (let src = strip source in
      case http_get w src of
        FetchRaises exc_str \<Rightarrow>
          (let msg = src @ '' | Error'';
               msg' = (if exc_str \<noteq> [] \<and> exc_str \<noteq> src then msg @ '': '' @ exc_str else msg)
           in Inr (st\<lparr>console := console st @ [msg']\<rparr>))
      | FetchResponds status text \<Rightarrow>
          (let found = candidates text in
           if found \<noteq> [] then
             (case map_of (proxies st) proto of
                None \<Rightarrow> Inl KeyError
              | Some s \<Rightarrow>
                  Inr (st\<lparr>proxies := dict_set (proxies st) proto
                             (foldl (\<lambda>s (sa, i). set_add H s (Proxy sa i)) s found)\<rparr>))
           else
             (let msg = src @ '' | No proxies found'';
                  msg' = (if status \<noteq> 200 then msg @ '' | Status code '' @ str_nat status else msg)
              in Inr (st\<lparr>console := console st @ [msg']\<rparr>))))"

fun fetch_each ::
  "(string \<times> string \<Rightarrow> int) \<Rightarrow> env \<Rightarrow> checker \<Rightarrow> (string \<times> string) list \<Rightarrow> error + checker" where
  "fetch_each H w st [] = Inr st"
| "fetch_each H w st ((proto, source) # rest) =
     (case fetch_source H w st source proto of
        Inl e \<Rightarrow> Inl e
      | Inr st' \<Rightarrow> fetch_each H w st' rest)"

definition fetch_all_sources ::
  "(string \<times> string \<Rightarrow> int) \<Rightarrow> env \<Rightarrow> checker \<Rightarrow> error + checker" where
  "fetch_all_sources H w st =
     (case fetch_each H w st
             (concat (map (\<lambda>(proto, srcs). map (\<lambda>source. (proto, source)) srcs) (sources st))) of
        Inl e \<Rightarrow> Inl e
      | Inr st' \<Rightarrow>
          Inr (st'\<lparr>proxies_count := map (\<lambda>(proto, s). (proto, length s)) (proxies st')\<rparr>))"

section \<open>Checking the candidates\<close>

text \<open>
  \<open>check_proxy\<close> (lines 211 to 241). The \<open>else\<close> clause of the \<open>try\<close> statement runs
  outside the handler: it sets the timeout on the candidate and, when the data is truthy,
  calls \<open>update\<close>, whose AttributeError on a value that is not a dict leaves
  \<open>check_proxy\<close>. Progress reporting is left out.
\<close>

definition mutate :: "(string \<times> string \<Rightarrow> int) \<Rightarrow> (proxy \<Rightarrow> proxy) \<Rightarrow> proxy \<Rightarrow> proxy list \<Rightarrow> proxy list" where
  \<comment> \<open>assignment to fields of the object \<open>p\<close>, seen through the set that holds it\<close>
  "mutate H f p s = map (\<lambda>q. if same_key H q p then f q else q) s"

definition check_proxy ::
  "(string \<times> string \<Rightarrow> int) \<Rightarrow> env \<Rightarrow> checker \<Rightarrow> proxy \<Rightarrow> string \<Rightarrow> error + checker" where
  "check_proxy H w st p proto =
     (case probe w proto (socket_address p) of
        Raises e \<Rightarrow>
          (let st1 = (if e = OSError 24
                      then st\<lparr>console := console st @
                                 [''[red]Please, set MAX_CONNECTIONS to lower value.'']\<rparr>
                      else st)
           in case map_of (proxies st1) proto of
                None \<Rightarrow> Inl KeyError
              | Some s \<Rightarrow>
                  (case set_remove H s p of
                     Inl err \<Rightarrow> Inl err
                   | Inr s' \<Rightarrow> Inr (st1\<lparr>proxies := dict_set (proxies st1) proto s'\<rparr>)))
      | Responds status json elapsed \<Rightarrow>
          (let data = (if status = 200 then json else PNone);
               f = (\<lambda>q. let q1 = q\<lparr>timeout := enat elapsed\<rparr>
                        in if truthy data then update (py_str w) q1 data else Inr q1)
           in case f p of
                Inl err \<Rightarrow> Inl err
              | Inr p' \<Rightarrow>
                  (case map_of (proxies st) proto of
                     None \<Rightarrow> Inr st
                   | Some s \<Rightarrow>
                       Inr (st\<lparr>proxies := dict_set (proxies st) proto
                                  (mutate H (\<lambda>q. case f q of Inl err \<Rightarrow> q | Inr q' \<Rightarrow> q') p s)\<rparr>))))"

fun check_each ::
  "(string \<times> string \<Rightarrow> int) \<Rightarrow> env \<Rightarrow> checker \<Rightarrow> (string \<times> proxy) list \<Rightarrow> error + checker" where
  "check_each H w st [] = Inr st"
| "check_each H w st ((proto, p) # rest) =
     (case check_proxy H w st p proto of
        Inl e \<Rightarrow> Inl e
      | Inr st' \<Rightarrow> check_each H w st' rest)"

text \<open>
  \<open>check_all_proxies\<close>. Every check first acquires the semaphore; with an initial value
  of 0 no check is ever admitted, and \<open>gather\<close> never returns when there is a candidate.
\<close>

definition check_all_proxies ::
  "(string \<times> string \<Rightarrow> int) \<Rightarrow> env \<Rightarrow> checker \<Rightarrow> error + checker" where
  "check_all_proxies H w st =
     (case temp_dir w of
        None \<Rightarrow> Inl KeyError
      | Some tmp \<Rightarrow>
          (case retrieve w of
             Some e \<Rightarrow> Inl (Raised e)
           | None \<Rightarrow>
               (let coroutines =
                      concat (map (\<lambda>(proto, s). map (\<lambda>p. (proto, p)) s) (proxies st))
                in if coroutines \<noteq> [] \<and> sem st = 0 then Inl Deadlock
                   else check_each H w st (shuffle w coroutines))))"

section \<open>Sorting and writing\<close>

text \<open>
  \<open>int(s)\<close> on 8-bit text, where the decimal digits are \<open>0\<close> to \<open>9\<close>. White space
  around the number is skipped (\<open>\<bsol>t\<close>, \<open>\<bsol>n\<close>, \<open>\<bsol>v\<close>, \<open>\<bsol>f\<close>, \<open>\<bsol>r\<close>, the space,
  \<open>\<bsol>x85\<close> and \<open>\<bsol>xa0\<close>); then comes an optional sign, then the digits, which single
  underscores may separate. More than 4300 digits are refused, which is the interpreter's
  default limit. Any other text raises ValueError.
\<close>

definition int_space :: "char \<Rightarrow> bool" where
  "int_space c = (c \<in> set [CHR 0x09, CHR 0x0A, CHR 0x0B, CHR 0x0C, CHR 0x0D, CHR 0x20,
                            CHR 0x85, CHR 0xA0])"

fun int_body :: "bool \<Rightarrow> string \<Rightarrow> bool" where
  \<comment> \<open>the flag says that a digit has to come next\<close>
  "int_body need [] = (\<not> need)"
| "int_body need (c # cs) =
     (if is_digit c then int_body False cs
      else c = CHR ''_'' \<and> \<not> need \<and> int_body True cs)"

definition py_int :: "string \<Rightarrow> error + int" where
  "py_int s =
     (let t = rev (dropWhile int_space (rev (dropWhile int_space s)));
          signed = (t \<noteq> [] \<and> (hd t = CHR ''+'' \<or> hd t = CHR ''-''));
          body = (if signed then tl t else t);
          ds = filter is_digit body
      in if int_body True body \<and> length ds \<le> 4300
         then Inr ((if signed \<and> hd t = CHR ''-'' then - 1 else 1) * int (digits_value ds))
         else Inl (ValueError s))"

definition replace :: "char \<Rightarrow> char \<Rightarrow> string \<Rightarrow> string" where
  \<comment> \<open>\<open>s.replace(a, b)\<close> for single characters\<close>
  "replace a b s = map (\<lambda>c. if c = a then b else c) s"

fun split_from :: "char \<Rightarrow> string \<Rightarrow> string \<Rightarrow> string list" where
  "split_from sep acc [] = [rev acc]"
| "split_from sep acc (c # cs) =
     (if c = sep then rev acc # split_from sep [] cs else split_from sep (c # acc) cs)"

definition split :: "char \<Rightarrow> string \<Rightarrow> string list" where
  \<comment> \<open>\<open>s.split(sep)\<close> for a single character\<close>
  "split sep s = split_from sep [] s"

fun sequence :: "(error + 'a) list \<Rightarrow> error + 'a list" where
  "sequence [] = Inr []"
| "sequence (x # xs) =
     (case x of Inl e \<Rightarrow> Inl e
      | Inr v \<Rightarrow> (case sequence xs of Inl e \<Rightarrow> Inl e | Inr vs \<Rightarrow> Inr (v # vs)))"

definition speed_sorting_key :: "proxy \<Rightarrow> enat" where
  "speed_sorting_key p = timeout p"

definition alphabet_sorting_key :: "proxy \<Rightarrow> error + int list" where
  "alphabet_sorting_key p =
     sequence (map py_int (split CHR ''.'' (replace CHR '':'' CHR ''.'' (socket_address p))))"

text \<open>\<open>sorted(xs, key=key)\<close> computes every key first and then sorts stably.\<close>

definition sorted_by :: "(proxy \<Rightarrow> error + 'k::linorder) \<Rightarrow> proxy list \<Rightarrow> error + proxy list" where
  "sorted_by key xs =
     (case sequence (map key xs) of
        Inl e \<Rightarrow> Inl e
      | Inr ks \<Rightarrow> Inr (map snd (sort_key fst (zip ks xs))))"

definition sorted_proxies :: "checker \<Rightarrow> error + (string \<times> proxy list) list" where
  "sorted_proxies st =
     sequence (map (\<lambda>(proto, s).
        (case (if sort_by_speed st then sorted_by (\<lambda>p. Inr (speed_sorting_key p)) s
               else sorted_by alphabet_sorting_key s) of
           Inl e \<Rightarrow> Inl e
         | Inr xs \<Rightarrow> Inr (proto, xs))) (proxies st))"

text \<open>
  The output stage. A request to the file system is added to the requests made so far,
  and the answer is looked up. Each of the functions below takes the list of the requests
  made and returns it with the exception that has left the function, if any.
\<close>

definition request :: "env \<Rightarrow> fs_call \<Rightarrow> fs_call list \<Rightarrow> fs_call list \<times> exc option" where
  "request w c reqs = (reqs @ [c], fs_answer w reqs c)"

definition folder_remove :: "env \<Rightarrow> folder \<Rightarrow> fs_call list \<Rightarrow> fs_call list \<times> error option" where
  \<comment> \<open>\<open>Folder.remove\<close>: \<open>rmtree\<close>, with FileNotFoundError passed over\<close>
  "folder_remove w f reqs =
     (case request w (Rmtree (path f)) reqs of
        (reqs', None) \<Rightarrow> (reqs', None)
      | (reqs', Some e) \<Rightarrow> if e = OSError 2 then (reqs', None) else (reqs', Some (Raised e)))"

definition folder_create :: "env \<Rightarrow> folder \<Rightarrow> fs_call list \<Rightarrow> fs_call list \<times> error option" where
  \<comment> \<open>\<open>Folder.create\<close>: \<open>mkdir(parents=True, exist_ok=True)\<close>\<close>
  "folder_create w f reqs =
     (case request w (Mkdir (path f)) reqs of
        (reqs', None) \<Rightarrow> (reqs', None)
      | (reqs', Some e) \<Rightarrow> (reqs', Some (Raised e)))"

fun py_join :: "string \<Rightarrow> string list \<Rightarrow> string" where
  "py_join sep [] = []"
| "py_join sep [x] = x"
| "py_join sep (x # y # ys) = x @ sep @ py_join sep (y # ys)"

definition file_text :: "folder \<Rightarrow> proxy list \<Rightarrow> string" where
  "file_text f ps =
     py_join [CHR 0x0A]
       (map (\<lambda>p. if for_geolocation f then socket_address p @ geolocation p else socket_address p)
          (filter (\<lambda>p. if for_anonymous f then is_anonymous p = Some True else True) ps))"

definition write_text :: "env \<Rightarrow> path \<Rightarrow> string \<Rightarrow> fs_call list \<Rightarrow> fs_call list \<times> error option" where
  "write_text w q text reqs =
     (case request w (WriteText q text) reqs of
        (reqs', None) \<Rightarrow> (reqs', None)
      | (reqs', Some e) \<Rightarrow> (reqs', Some (Raised e)))"

fun for_each ::
  "('a \<Rightarrow> fs_call list \<Rightarrow> fs_call list \<times> error option) \<Rightarrow> 'a list \<Rightarrow> fs_call list \<Rightarrow>
   fs_call list \<times> error option" where
  \<comment> \<open>a \<open>for\<close> loop: an exception that leaves the body ends the loop\<close>
  "for_each body [] reqs = (reqs, None)"
| "for_each body (x # xs) reqs =
     (case body x reqs of
        (reqs', None) \<Rightarrow> for_each body xs reqs'
      | (reqs', Some e) \<Rightarrow> (reqs', Some e))"

definition write_folder ::
  "env \<Rightarrow> (string \<times> proxy list) list \<Rightarrow> folder \<Rightarrow> fs_call list \<Rightarrow> fs_call list \<times> error option" where
  \<comment> \<open>the body of the loop over the enabled folders\<close>
  "write_folder w listing f reqs =
     (case folder_create w f reqs of
        (reqs', Some e) \<Rightarrow> (reqs', Some e)
      | (reqs', None) \<Rightarrow>
          for_each (\<lambda>(proto, ps). write_text w (path f @ [proto @ ''.txt'']) (file_text f ps))
            listing reqs')"

definition save_proxies :: "env \<Rightarrow> checker \<Rightarrow> fs_call list \<Rightarrow> fs_call list \<times> error option" where
  "save_proxies w st reqs =
     (case sorted_proxies st of
        Inl e \<Rightarrow> (reqs, Some e)
      | Inr listing \<Rightarrow>
          (case temp_dir w of
             None \<Rightarrow> (reqs, Some KeyError)
           | Some tmp \<Rightarrow>
               (case for_each (folder_remove w) (all_folders st) reqs of
                  (reqs', Some e) \<Rightarrow> (reqs', Some e)
                | (reqs', None) \<Rightarrow> for_each (write_folder w listing) (enabled_folders st) reqs')))"

section \<open>The whole run\<close>

definition main ::
  "(string \<times> string \<Rightarrow> int) \<Rightarrow> env \<Rightarrow> checker \<Rightarrow> error + checker \<times> fs_call list" where
  \<comment> \<open>\<open>ProxyScraperChecker.main\<close>, without the summary table\<close>
  "main H w st =
     (case fetch_all_sources H w st of
        Inl e \<Rightarrow> Inl e
      | Inr st1 \<Rightarrow>
          (case check_all_proxies H w st1 of
             Inl e \<Rightarrow> Inl e
           | Inr st2 \<Rightarrow>
               (case save_proxies w st2 [] of
                  (reqs, Some e) \<Rightarrow> Inl e
                | (reqs, None) \<Rightarrow> Inr (st2, reqs))))"

definition run ::
  "(string \<times> string \<Rightarrow> int) \<Rightarrow> env \<Rightarrow>
   nat \<Rightarrow> int \<Rightarrow> bool \<Rightarrow> string \<Rightarrow> bool \<Rightarrow> bool \<Rightarrow> bool \<Rightarrow> bool \<Rightarrow>
   string option \<Rightarrow> string option \<Rightarrow> string option \<Rightarrow> error + checker \<times> fs_call list" where
  \<comment> \<open>\<open>ProxyScraperChecker(...).main()\<close> of the module's \<open>main\<close>\<close>
  "run H w timeout_arg max_connections sort_by_speed_arg save_path
       proxies_arg proxies_anonymous proxies_geolocation proxies_geolocation_anonymous
       http_sources socks4_sources socks5_sources =
     (case init timeout_arg max_connections sort_by_speed_arg save_path
             proxies_arg proxies_anonymous proxies_geolocation proxies_geolocation_anonymous
             http_sources socks4_sources socks5_sources of
        Inl e \<Rightarrow> Inl e
      | Inr st \<Rightarrow> main H w st)"

section \<open>Notions used in the statements\<close>

text \<open>
  \<open>kept_with p f s\<close> is the set \<open>s\<close> after the fields of the element with the address of
  \<open>p\<close> have been changed by \<open>f\<close>. \<open>no_new s s'\<close> says that every element of \<open>s'\<close> is
  an element of \<open>s\<close>, up to the measured fields, and that \<open>s'\<close> is no larger;
  \<open>only_shrinks\<close> says so for every protocol of a dictionary of sets.
\<close>

definition kept_with :: "proxy \<Rightarrow> (proxy \<Rightarrow> proxy) \<Rightarrow> proxy list \<Rightarrow> proxy list" where
  "kept_with p f s = map (\<lambda>q. if socket_address q = socket_address p then f q else q) s"

definition no_new :: "proxy list \<Rightarrow> proxy list \<Rightarrow> bool" where
  "no_new s s' =
     ((\<forall>p' \<in> set s'. \<exists>p \<in> set s. socket_address p' = socket_address p \<and> ip p' = ip p) \<and>
      length s' \<le> length s)"

definition only_shrinks :: "(string \<times> proxy list) list \<Rightarrow> (string \<times> proxy list) list \<Rightarrow> bool" where
  "only_shrinks d d' =
     (map fst d' = map fst d \<and>
      (\<forall>proto s'. map_of d' proto = Some s' \<longrightarrow> (\<exists>s. map_of d proto = Some s \<and> no_new s s')))"

subsection \<open>Example configurations\<close>

text \<open>Concrete worlds and checker states at which the statements below are evaluated. In
  these worlds no request to the file system raises.\<close>

definition probe404 :: env where
  "probe404 = \<lparr>http_get = (\<lambda>u. FetchRaises []), probe = (\<lambda>proto sa. Responds 404 PNone 5),
      shuffle = (\<lambda>xs. xs), temp_dir = Some ''tmp'', retrieve = None,
      fs_answer = (\<lambda>reqs c. None), py_str = (\<lambda>v. [])\<rparr>"

definition one_http :: checker where
  "one_http = \<lparr>all_folders = [], enabled_folders = [], save_dir = [], proxies_count = [(''http'', 1)],
     proxies = [(''http'', [Proxy ''10.0.0.1:8080'' ''10.0.0.1''])], sort_by_speed = False,
     sources = [], check_timeout = 10, sem = 900, console = []\<rparr>"

definition probe_timeout :: env where
  "probe_timeout = \<lparr>http_get = (\<lambda>u. FetchRaises []), probe = (\<lambda>proto sa. Raises TimeoutError),
      shuffle = (\<lambda>xs. xs), temp_dir = Some ''tmp'', retrieve = None,
      fs_answer = (\<lambda>reqs c. None), py_str = (\<lambda>v. [])\<rparr>"

definition probe_empty :: env where
  "probe_empty = \<lparr>http_get = (\<lambda>u. FetchRaises []), probe = (\<lambda>proto sa. Responds 200 (PDict []) 7),
      shuffle = (\<lambda>xs. xs), temp_dir = Some ''tmp'', retrieve = None,
      fs_answer = (\<lambda>reqs c. None), py_str = (\<lambda>v. [])\<rparr>"

definition probe_us :: env where
  "probe_us = \<lparr>http_get = (\<lambda>u. FetchRaises []),
      probe = (\<lambda>proto sa. Responds 200 (PDict [(''query'', PStr ''1.2.3.4''), (''country'', PStr ''US'')]) 7),
      shuffle = (\<lambda>xs. xs), temp_dir = Some ''tmp'', retrieve = None,
      fs_answer = (\<lambda>reqs c. None), py_str = (\<lambda>v. [])\<rparr>"

definition st_c5 :: checker where
  "st_c5 = \<lparr>all_folders =
        [\<lparr>path = [''out'', ''proxies''], for_anonymous = False, for_geolocation = False\<rparr>,
         \<lparr>path = [''out'', ''proxies_anonymous''], for_anonymous = True, for_geolocation = False\<rparr>,
         \<lparr>path = [''out'', ''proxies_geolocation''], for_anonymous = False, for_geolocation = True\<rparr>,
         \<lparr>path = [''out'', ''proxies_geolocation_anonymous''], for_anonymous = True,
            for_geolocation = True\<rparr>],
      enabled_folders =
        [\<lparr>path = [''out'', ''proxies''], for_anonymous = False, for_geolocation = False\<rparr>],
      save_dir = [''out''], proxies_count = [(''http'', 0)], proxies = [(''http'', [])],
      sort_by_speed = False, sources = [(''http'', [''http://a''])], check_timeout = 10,
      sem = 900, console = []\<rparr>"

definition probe_mixed :: env where
  "probe_mixed = \<lparr>http_get = (\<lambda>u. FetchResponds 200 ''foo 10.0.0.1:8080 bar 999.1.1.1:80 baz''),
      probe = (\<lambda>proto sa. if sa = ''10.0.0.1:8080''
                 then Responds 200 (PDict [(''query'', PStr ''1.2.3.4''), (''country'', PStr ''US'')]) 7
                 else Raises TimeoutError),
      shuffle = rev, temp_dir = Some ''tmp'', retrieve = None,
      fs_answer = (\<lambda>reqs c. None), py_str = (\<lambda>v. [])\<rparr>"

definition two_http :: checker where
  "two_http = \<lparr>all_folders = [], enabled_folders = [], save_dir = [], proxies_count = [(''http'', 2)],
     proxies = [(''http'', [Proxy ''10.0.0.1:8080'' ''10.0.0.1'', Proxy ''99.1.1.1:80'' ''99.1.1.1''])],
     sort_by_speed = False, sources = [], check_timeout = 10, sem = 900, console = []\<rparr>"

definition unsorted_http :: checker where
  "unsorted_http = \<lparr>all_folders = [], enabled_folders = [], save_dir = [], proxies_count = [(''http'', 2)],
     proxies = [(''http'', [Proxy ''10.0.0.1:80'' ''10.0.0.1'', Proxy ''2.0.0.1:80'' ''2.0.0.1''])],
     sort_by_speed = False, sources = [], check_timeout = 10, sem = 900, console = []\<rparr>"

section \<open>Properties of the matcher\<close>

lemma slice_Nil: "slice t (i, i) = []"
  by (simp add: slice_def)

lemma slice_one: "i < length t \<Longrightarrow> slice t (i, Suc i) = [t ! i]"
  by (simp add: slice_def take_Suc_conv_app_nth hd_drop_conv_nth take_Suc)

lemma slice_append: "i \<le> k \<Longrightarrow> k \<le> j \<Longrightarrow> slice t (i, j) = slice t (i, k) @ slice t (k, j)"
proof -
  assume a: "i \<le> k" "k \<le> j"
  then have "j - i = (k - i) + (j - k)" by simp
  then have "take (j - i) (drop i t) = take (k - i) (drop i t) @ take (j - k) (drop (k - i) (drop i t))"
    by (simp only: take_add)
  with a show ?thesis by (simp add: slice_def)
qed

lemma one_char_iff:
  "(j, g') \<in> set (one_char t P (i, g)) \<longleftrightarrow> j = Suc i \<and> g' = g \<and> i < length t \<and> P (t ! i)"
  by (auto simp: one_char_def)

lemma rep_lang:
  assumes m: "\<And>i g j g'. (j, g') \<in> set (m (i, g)) \<Longrightarrow> i \<le> length t \<Longrightarrow>
                g' = g \<and> i \<le> j \<and> j \<le> length t \<and> slice t (i, j) \<in> L"
  shows "(j, g') \<in> set (rep m lo hi (i, g)) \<Longrightarrow> i \<le> length t \<Longrightarrow>
         g' = g \<and> i \<le> j \<and> j \<le> length t \<and> (\<exists>n. lo \<le> n \<and> n \<le> hi \<and> slice t (i, j) \<in> lpow L n)"
proof (induction hi arbitrary: lo i g)
  case 0
  then show ?case by (auto simp: slice_Nil split: if_splits)
next
  case (Suc hi)
  from Suc.prems(1) consider
    (stop) "lo = 0" "j = i" "g' = g"
    | (step) k gk where "(k, gk) \<in> set (m (i, g))" "(j, g') \<in> set (rep m (lo - 1) hi (k, gk))"
    by (auto split: if_splits)
  then show ?case
  proof cases
    case stop
    have "slice t (i, i) \<in> lpow L 0" by (simp add: slice_Nil)
    with stop Suc.prems(2) show ?thesis by blast
  next
    case step
    from m[OF step(1) Suc.prems(2)]
    have k: "gk = g" "i \<le> k" "k \<le> length t" "slice t (i, k) \<in> L" by auto
    from Suc.IH[OF step(2) k(3)] obtain n where
      n: "g' = gk" "k \<le> j" "j \<le> length t" "lo - 1 \<le> n" "n \<le> hi" "slice t (k, j) \<in> lpow L n"
      by auto
    have "slice t (i, j) = slice t (i, k) @ slice t (k, j)"
      by (rule slice_append) (use k n in simp_all)
    with k n have "slice t (i, j) \<in> lpow L (Suc n)" by auto
    moreover have "lo \<le> Suc n" "Suc n \<le> Suc hi" using n by auto
    moreover have "g' = g" "i \<le> j" using k n by auto
    ultimately show ?thesis using n(3) by blast
  qed
qed

lemma bt_lang:
  "groupfree r \<Longrightarrow> (j, g') \<in> set (bt t r (i, g)) \<Longrightarrow> i \<le> length t \<Longrightarrow>
     g' = g \<and> i \<le> j \<and> j \<le> length t \<and> slice t (i, j) \<in> lang r"
proof (induction r arbitrary: i g j g')
  case (Lit c)
  then show ?case by (simp add: one_char_iff slice_one)
next
  case Digit
  then show ?case by (simp add: one_char_iff slice_one)
next
  case NonDigit
  then show ?case by (simp add: one_char_iff slice_one)
next
  case (Range a b)
  then show ?case by (simp add: one_char_iff slice_one)
next
  case Bol
  then show ?case by (simp add: slice_Nil split: if_splits)
next
  case Eol
  then show ?case by (simp add: slice_Nil split: if_splits)
next
  case (Seq r1 r2)
  from Seq.prems(2) obtain k gk where
    s: "(k, gk) \<in> set (bt t r1 (i, g))" "(j, g') \<in> set (bt t r2 (k, gk))"
    by auto
  have gf: "groupfree r1" "groupfree r2" using Seq.prems(1) by simp_all
  from Seq.IH(1)[OF gf(1) s(1) Seq.prems(3)]
  have k: "gk = g" "i \<le> k" "k \<le> length t" "slice t (i, k) \<in> lang r1" by auto
  from Seq.IH(2)[OF gf(2) s(2) k(3)]
  have j: "g' = gk" "k \<le> j" "j \<le> length t" "slice t (k, j) \<in> lang r2" by auto
  have "slice t (i, j) = slice t (i, k) @ slice t (k, j)"
    by (rule slice_append) (use k j in simp_all)
  with k j show ?case by auto
next
  case (Alt r1 r2)
  have gf: "groupfree r1" "groupfree r2" using Alt.prems(1) by simp_all
  from Alt.prems(2) have "(j, g') \<in> set (bt t r1 (i, g)) \<or> (j, g') \<in> set (bt t r2 (i, g))"
    by simp
  then show ?case
  proof
    assume a: "(j, g') \<in> set (bt t r1 (i, g))"
    from Alt.IH(1)[OF gf(1) a Alt.prems(3)] show ?thesis by simp
  next
    assume a: "(j, g') \<in> set (bt t r2 (i, g))"
    from Alt.IH(2)[OF gf(2) a Alt.prems(3)] show ?thesis by simp
  qed
next
  case (Opt r)
  have gf: "groupfree r" using Opt.prems(1) by simp
  from Opt.prems(2) have "(j, g') \<in> set (bt t r (i, g)) \<or> (j, g') = (i, g)"
    by auto
  then show ?case
  proof
    assume a: "(j, g') \<in> set (bt t r (i, g))"
    from Opt.IH[OF gf a Opt.prems(3)] show ?thesis by simp
  next
    assume "(j, g') = (i, g)"
    with Opt.prems(3) show ?thesis by (simp add: slice_Nil)
  qed
next
  case (Rep lo hi r)
  have gf: "groupfree r" using Rep.prems(1) by simp
  have m: "\<And>i g j g'. (j, g') \<in> set (bt t r (i, g)) \<Longrightarrow> i \<le> length t \<Longrightarrow>
             g' = g \<and> i \<le> j \<and> j \<le> length t \<and> slice t (i, j) \<in> lang r"
    using Rep.IH[OF gf] by blast
  from Rep.prems(2) have "(j, g') \<in> set (rep (bt t r) lo hi (i, g))" by simp
  from rep_lang[of "bt t r" t "lang r", OF m this Rep.prems(3)]
  show ?case by auto
next
  case (Group k r)
  then show ?case by simp
next
  case (NGroup r)
  then show ?case by simp
qed

lemma foldl_digits: "foldl (\<lambda>n c. 10 * n + dv c) a ds = a * 10 ^ length ds + foldl (\<lambda>n c. 10 * n + dv c) 0 ds"
proof (induction ds arbitrary: a)
  case Nil
  show ?case by simp
next
  case (Cons c ds)
  have "foldl (\<lambda>n c. 10 * n + dv c) a (c # ds) = foldl (\<lambda>n c. 10 * n + dv c) (10 * a + dv c) ds"
    by simp
  also have "\<dots> = (10 * a + dv c) * 10 ^ length ds + foldl (\<lambda>n c. 10 * n + dv c) 0 ds"
    by (rule Cons.IH)
  also have "foldl (\<lambda>n c. 10 * n + dv c) 0 ds = foldl (\<lambda>n c. 10 * n + dv c) 0 (c # ds) - dv c * 10 ^ length ds"
    using Cons.IH[of "dv c"] by simp
  finally show ?case using Cons.IH[of "dv c"] by (simp add: algebra_simps)
qed

lemma digits_value_Nil: "digits_value [] = 0"
  by (simp add: digits_value_def)

lemma digits_value_Cons: "digits_value (c # ds) = dv c * 10 ^ length ds + digits_value ds"
  unfolding digits_value_def using foldl_digits[of "dv c" ds] by simp

lemma dv_digit: "is_digit c \<Longrightarrow> dv c \<le> 9"
  by (auto simp: is_digit_def dv_def)

lemma digits_value_bound: "list_all is_digit ds \<Longrightarrow> digits_value ds < 10 ^ length ds"
proof (induction ds)
  case Nil
  show ?case by (simp add: digits_value_Nil)
next
  case (Cons c ds)
  then have "dv c \<le> 9" "digits_value ds < 10 ^ length ds" by (simp_all add: dv_digit)
  then have "dv c * 10 ^ length ds + digits_value ds < 9 * 10 ^ length ds + 10 ^ length ds"
    by (meson add_le_less_mono mult_le_mono1)
  then show ?case by (simp add: digits_value_Cons)
qed

lemma lpow_digit: "x \<in> lpow {[c] | c. is_digit c} n \<longleftrightarrow> length x = n \<and> list_all is_digit x"
proof (induction n arbitrary: x)
  case 0
  show ?case by auto
next
  case (Suc n)
  show ?case
  proof
    assume "x \<in> lpow {[c] | c. is_digit c} (Suc n)"
    then obtain c y where "x = c # y" "is_digit c" "y \<in> lpow {[c] | c. is_digit c} n" by auto
    with Suc.IH[of y] show "length x = Suc n \<and> list_all is_digit x" by simp
  next
    assume a: "length x = Suc n \<and> list_all is_digit x"
    then obtain c y where x: "x = c # y" by (cases x) auto
    with a Suc.IH[of y] have "is_digit c" "y \<in> lpow {[c] | c. is_digit c} n" by auto
    then have "[c] @ y \<in> lpow {[c] | c. is_digit c} (Suc n)"
      unfolding lpow.simps by blast
    with x show "x \<in> lpow {[c] | c. is_digit c} (Suc n)" by simp
  qed
qed

lemma of_char_zero: "(of_char c :: nat) = 48 \<longleftrightarrow> c = CHR ''0''"
proof -
  have "(of_char c :: nat) = of_char CHR ''0'' \<longleftrightarrow> c = CHR ''0''"
    by (rule of_char_eq_iff)
  then show ?thesis by simp
qed

lemma range_digit:
  "in_range CHR ''0'' CHR ''5'' c \<Longrightarrow> is_digit c \<and> dv c \<le> 5"
  "in_range CHR ''0'' CHR ''4'' c \<Longrightarrow> is_digit c \<and> dv c \<le> 4"
  "in_range CHR ''0'' CHR ''2'' c \<Longrightarrow> is_digit c \<and> dv c \<le> 2"
  "in_range CHR ''1'' CHR ''9'' c \<Longrightarrow> is_digit c \<and> 1 \<le> dv c \<and> dv c \<le> 9 \<and> c \<noteq> CHR ''0''"
  "in_range CHR ''1'' CHR ''5'' c \<Longrightarrow> is_digit c \<and> 1 \<le> dv c \<and> dv c \<le> 5 \<and> c \<noteq> CHR ''0''"
  by (auto simp: in_range_def is_digit_def dv_def)

lemma lit_digit:
  "is_digit CHR ''1''" "is_digit CHR ''2''" "is_digit CHR ''3''" "is_digit CHR ''5''" "is_digit CHR ''6''"
  "dv CHR ''1'' = 1" "dv CHR ''2'' = 2" "dv CHR ''3'' = 3" "dv CHR ''5'' = 5" "dv CHR ''6'' = 6"
  by (simp_all add: is_digit_def dv_def)

lemma lang_octet: "x \<in> lang octet \<Longrightarrow> octet_ok x"
  unfolding octet_def octet_ok_def plain_number_def
  by (auto simp: lpow_digit digits_value_Cons digits_value_Nil lit_digit
      dest!: range_digit dest: digits_value_bound) (auto dest!: dv_digit)

lemma lang_octet1: "x \<in> lang octet1 \<Longrightarrow> octet_ok x \<and> 1 \<le> digits_value x"
  unfolding octet1_def octet_ok_def plain_number_def
  by (auto simp: lpow_digit digits_value_Cons digits_value_Nil lit_digit
      dest!: range_digit dest: digits_value_bound) (auto dest!: dv_digit)

lemma short_number:
  assumes "list_all is_digit y" "length y \<le> 3" "dv c \<le> 9"
  shows "dv c * 10 ^ length y + digits_value y \<le> 65535"
proof -
  have p: "(10::nat) ^ length y \<le> 10 ^ 3"
    using assms(2) by (intro power_increasing) simp_all
  have "digits_value y < 10 ^ length y" using assms(1) by (rule digits_value_bound)
  with p have v: "digits_value y < 1000" by simp
  have "dv c * 10 ^ length y \<le> 9 * 10 ^ 3"
    using assms(3) p by (rule mult_le_mono)
  with v show ?thesis by simp
qed

lemma lang_port: "x \<in> lang port \<Longrightarrow> port_ok x"
  unfolding port_def port_ok_def plain_number_def
  by (auto simp: lpow_digit digits_value_Cons digits_value_Nil lit_digit
      dest!: range_digit dest: digits_value_bound) (auto dest!: dv_digit intro: short_number)

lemma lang_ip:
  assumes "x \<in> lang ip_re"
  shows "\<exists>a b c d. x = a @ ''.'' @ b @ ''.'' @ c @ ''.'' @ d \<and>
           octet_ok a \<and> 1 \<le> digits_value a \<and> octet_ok b \<and> octet_ok c \<and> octet_ok d"
proof -
  from assms obtain a b c d where
    x: "x = a @ ''.'' @ b @ ''.'' @ c @ ''.'' @ d"
    and m: "a \<in> lang octet1" "b \<in> lang octet" "c \<in> lang octet" "d \<in> lang octet"
    by (auto simp: ip_re_def dot_def)
  from m show ?thesis using x lang_octet lang_octet1 by blast
qed

lemma lang_colon_port:
  assumes "x \<in> lang (Seq (Lit CHR '':'') port)"
  shows "\<exists>p. x = '':'' @ p \<and> port_ok p"
  using assms lang_port by auto

lemma groupfree_parts:
  "groupfree ip_re" "groupfree port" "groupfree octet" "groupfree octet1"
  by (simp_all add: ip_re_def port_def octet_def octet1_def dot_def)

lemma newline_not_digit: "\<not> is_digit (CHR 0x0A)"
  by (simp add: is_digit_def)

lemma post_sound:
  assumes "(j, g') \<in> set (bt t (NGroup (Alt NonDigit Eol)) (e, g))" "e \<le> length t"
  shows "g' = g \<and> e \<le> j \<and> j \<le> length t \<and> (e = length t \<or> \<not> is_digit (t ! e))"
  using assms by (auto simp: one_char_iff at_eol_def newline_not_digit split: if_splits)

lemma bt_SeqE:
  assumes "(j, g') \<in> set (bt t (Seq r1 r2) s)"
  obtains k gk where "(k, gk) \<in> set (bt t r1 s)" "(j, g') \<in> set (bt t r2 (k, gk))"
  using assms by auto

lemma bt_GroupE:
  assumes "(j, g') \<in> set (bt t (Group n r) (i, g))"
  obtains gi where "(j, gi) \<in> set (bt t r (i, g))" "g' = gi(n \<mapsto> (i, j))"
  using assms by auto

lemma regex_sound:
  assumes "(j, g') \<in> set (bt t regex (i, g))" "i \<le> length t"
  shows "\<exists>a b e. g' 1 = Some (a, e) \<and> g' 2 = Some (a, b) \<and> i \<le> a \<and> a \<le> b \<and> b \<le> e \<and> e \<le> j \<and>
           j \<le> length t \<and> slice t (a, b) \<in> lang ip_re \<and>
           slice t (b, e) \<in> lang (Seq (Lit CHR '':'') port) \<and>
           (e = length t \<or> \<not> is_digit (t ! e))"
proof -
  let ?pre = "Opt (NGroup (Alt Bol NonDigit))"
  let ?cp = "Seq (Lit CHR '':'') port"
  let ?post = "NGroup (Alt NonDigit Eol)"
  let ?g1 = "Group 1 (Seq (Group 2 ip_re) ?cp)"
  from assms(1) have "(j, g') \<in> set (bt t (Seq ?pre (Seq ?g1 ?post)) (i, g))"
    by (simp only: regex_def)
  then obtain a ga where
    pre: "(a, ga) \<in> set (bt t ?pre (i, g))"
    and rest: "(j, g') \<in> set (bt t (Seq ?g1 ?post) (a, ga))"
    by (rule bt_SeqE)
  from rest obtain e ge where
    g1: "(e, ge) \<in> set (bt t ?g1 (a, ga))"
    and post: "(j, g') \<in> set (bt t ?post (e, ge))"
    by (rule bt_SeqE)
  have "groupfree ?pre" by simp
  from bt_lang[OF this pre assms(2)] have a: "ga = g" "i \<le> a" "a \<le> length t" by auto
  from g1 obtain gi where
    gi: "(e, gi) \<in> set (bt t (Seq (Group 2 ip_re) ?cp) (a, ga))" and ge: "ge = gi(1 \<mapsto> (a, e))"
    by (rule bt_GroupE)
  from gi obtain b gb where
    g2: "(b, gb) \<in> set (bt t (Group 2 ip_re) (a, ga))" and cp: "(e, gi) \<in> set (bt t ?cp (b, gb))"
    by (rule bt_SeqE)
  from g2 obtain gc where
    ip: "(b, gc) \<in> set (bt t ip_re (a, ga))" and gb: "gb = gc(2 \<mapsto> (a, b))"
    by (rule bt_GroupE)
  from bt_lang[OF groupfree_parts(1) ip a(3)]
  have b: "gc = ga" "a \<le> b" "b \<le> length t" "slice t (a, b) \<in> lang ip_re" by auto
  have "groupfree ?cp" by (simp add: groupfree_parts)
  from bt_lang[OF this cp b(3)]
  have e: "gi = gb" "b \<le> e" "e \<le> length t" "slice t (b, e) \<in> lang ?cp" by auto
  from post_sound[OF post e(3)]
  have j: "g' = ge" "e \<le> j" "j \<le> length t" "e = length t \<or> \<not> is_digit (t ! e)" by auto
  have "g' 1 = Some (a, e)" "g' 2 = Some (a, b)" using j(1) ge e(1) gb by simp_all
  with a b e j show ?thesis by blast
qed

lemma match_at_sound:
  assumes "match_at t i = Some m" "i \<le> length t"
  shows "well_formed t m \<and> m_start m = i"
proof -
  from assms(1) obtain j g' rest a b where
    r: "bt t regex (i, no_caps) = (j, g') # rest" and
    m: "g' 1 = Some a" "g' 2 = Some b" "m = \<lparr>m_start = i, m_end = j, span1 = a, span2 = b\<rparr>"
    by (auto simp: match_at_def split: list.splits option.splits)
  from r have "(j, g') \<in> set (bt t regex (i, no_caps))" by simp
  from regex_sound[OF this assms(2)] m show ?thesis
    unfolding well_formed_def by auto
qed

lemma finditer_from_sound:
  "m \<in> set (finditer_from t i) \<Longrightarrow> well_formed t m"
proof (induction t i rule: finditer_from.induct)
  case (1 t i)
  show ?case
  proof (cases "length t < i")
    case True
    with "1.prems" show ?thesis by simp
  next
    case False
    note le = False
    show ?thesis
    proof (cases "match_at t i")
      case None
      with le "1.prems" have "m \<in> set (finditer_from t (Suc i))" by simp
      with "1.IH"(1)[OF le None] show ?thesis by simp
    next
      case (Some m')
      with le "1.prems" have
        "m = m' \<or> m \<in> set (finditer_from t (if i < m_end m' then m_end m' else Suc i))"
        by simp
      then show ?thesis
      proof
        assume "m = m'"
        with match_at_sound[OF Some] le show ?thesis by simp
      next
        assume "m \<in> set (finditer_from t (if i < m_end m' then m_end m' else Suc i))"
        with "1.IH"(2)[OF le Some] show ?thesis by simp
      qed
    qed
  qed
qed

lemma finditer_sound: "m \<in> set (finditer t) \<Longrightarrow> well_formed t m"
  unfolding finditer_def by (rule finditer_from_sound)

lemma plain_hd:
  assumes "plain_number a" "1 \<le> digits_value a"
  shows "hd a \<noteq> CHR ''0''"
proof (cases a)
  case Nil
  with assms(1) show ?thesis by (simp add: plain_number_def)
next
  case (Cons c ds)
  show ?thesis
  proof (cases ds)
    case Nil
    with Cons assms(2) show ?thesis
      by (auto simp: digits_value_Cons digits_value_Nil dv_def)
  next
    case (Cons d ds')
    with \<open>a = c # ds\<close> assms(1) show ?thesis by (simp add: plain_number_def)
  qed
qed

lemma well_formed_shape:
  assumes "well_formed t m"
  shows "candidate_shape (group1 t m, group2 t m)"
proof -
  from assms obtain a b e where
    s: "span1 m = (a, e)" "span2 m = (a, b)" "a \<le> b" "b \<le> e"
    and ip: "slice t (a, b) \<in> lang ip_re"
    and cp: "slice t (b, e) \<in> lang (Seq (Lit CHR '':'') port)"
    unfolding well_formed_def by blast
  have g1: "group1 t m = slice t (a, b) @ slice t (b, e)"
    unfolding group1_def s by (rule slice_append) (use s in simp_all)
  have g2: "group2 t m = slice t (a, b)" by (simp add: group2_def s)
  from lang_ip[OF ip] obtain o1 o2 o3 o4 where
    x: "slice t (a, b) = o1 @ ''.'' @ o2 @ ''.'' @ o3 @ ''.'' @ o4"
    and ok: "octet_ok o1" "1 \<le> digits_value o1" "octet_ok o2" "octet_ok o3" "octet_ok o4"
    by blast
  from lang_colon_port[OF cp] obtain p where
    y: "slice t (b, e) = '':'' @ p" and pk: "port_ok p"
    by blast
  have s2: "snd (group1 t m, group2 t m) = o1 @ ''.'' @ o2 @ ''.'' @ o3 @ ''.'' @ o4"
    by (simp only: snd_conv g2 x)
  have s1: "fst (group1 t m, group2 t m) = snd (group1 t m, group2 t m) @ '':'' @ p"
    by (simp only: fst_conv snd_conv g1 g2 y)
  from s1 s2 ok pk show ?thesis
    unfolding candidate_shape_def by blast
qed

lemma candidates_shape: "c \<in> set (candidates t) \<Longrightarrow> candidate_shape c"
  unfolding candidates_def using finditer_sound well_formed_shape by auto

section \<open>Claims about the pattern extractor\<close>

text \<open>
  Claim C10. Every candidate the extractor yields is written as four octets and a port,
  each a plain decimal number (no leading zero), and the first octet is at least 1, so no
  extracted address begins with the character \<open>0\<close>.
\<close>

theorem C10_no_leading_zero:
  "\<forall>c \<in> set (candidates t).
     \<exists>o1 o2 o3 o4 p.
        snd c = o1 @ ''.'' @ o2 @ ''.'' @ o3 @ ''.'' @ o4 \<and> fst c = snd c @ '':'' @ p \<and>
        1 \<le> digits_value o1 \<and> hd (snd c) \<noteq> CHR ''0'' \<and>
        plain_number o1 \<and> plain_number o2 \<and> plain_number o3 \<and> plain_number o4 \<and> plain_number p"
proof
  fix c assume "c \<in> set (candidates t)"
  then have "candidate_shape c" by (rule candidates_shape)
  then obtain o1 o2 o3 o4 p where
    s: "snd c = o1 @ ''.'' @ o2 @ ''.'' @ o3 @ ''.'' @ o4" "fst c = snd c @ '':'' @ p"
    and o: "octet_ok o1" "1 \<le> digits_value o1" "octet_ok o2" "octet_ok o3" "octet_ok o4" "port_ok p"
    unfolding candidate_shape_def by blast
  from o have p1: "plain_number o1" by (simp add: octet_ok_def)
  from plain_hd[OF p1 o(2)] p1 have "hd (snd c) \<noteq> CHR ''0''"
    unfolding s by (cases o1) (simp_all add: plain_number_def)
  with s o show "\<exists>o1 o2 o3 o4 p.
        snd c = o1 @ ''.'' @ o2 @ ''.'' @ o3 @ ''.'' @ o4 \<and> fst c = snd c @ '':'' @ p \<and>
        1 \<le> digits_value o1 \<and> hd (snd c) \<noteq> CHR ''0'' \<and>
        plain_number o1 \<and> plain_number o2 \<and> plain_number o3 \<and> plain_number o4 \<and> plain_number p"
    unfolding octet_ok_def port_ok_def by blast
qed

theorem C10_no_leading_zero_witness:
  "(''1.2.3.4:80'', ''1.2.3.4'') \<in> set (candidates ''0.1.2.3:80 01.2.3.4:80 1.02.3.4:080'') \<and>
   (\<exists>o1 o2 o3 o4 p.
        ''1.2.3.4'' = o1 @ ''.'' @ o2 @ ''.'' @ o3 @ ''.'' @ o4 \<and> ''1.2.3.4:80'' = ''1.2.3.4'' @ '':'' @ p \<and>
        1 \<le> digits_value o1 \<and> hd ''1.2.3.4'' \<noteq> CHR ''0'' \<and>
        plain_number o1 \<and> plain_number o2 \<and> plain_number o3 \<and> plain_number o4 \<and> plain_number p)"
proof -
  have m: "(''1.2.3.4:80'', ''1.2.3.4'') \<in> set (candidates ''0.1.2.3:80 01.2.3.4:80 1.02.3.4:080'')"
    by code_simp
  from C10_no_leading_zero[rule_format, OF m] m show ?thesis by simp
qed

text \<open>
  Claim C2, as stated, asks that a match be bounded on both sides by a character that is
  neither a digit nor a dot. The pattern's context classes are \<open>\<bsol>D\<close>, which a dot
  satisfies: in the eight-octet text the match starts right after the dot at index 7 and
  yields the candidate \<open>5.6.7.8:80\<close>, whose digits lie inside the run.
\<close>

theorem C2_eight_octets_counterexample:
  "finditer ''1.2.3.4.5.6.7.8:80'' = [\<lparr>m_start = 7, m_end = 18, span1 = (8, 18), span2 = (8, 15)\<rparr>] \<and>
   ''1.2.3.4.5.6.7.8:80'' ! 7 = CHR ''.'' \<and>
   group1 ''1.2.3.4.5.6.7.8:80'' \<lparr>m_start = 7, m_end = 18, span1 = (8, 18), span2 = (8, 15)\<rparr> = ''5.6.7.8:80''"
  by code_simp

text \<open>
  Claim C2, amended. For every text, every match of the extractor is bounded on the right:
  group 1 ends at the end of the text or right before a character that is not a digit (a
  dot counts as such a character). Accordingly the eight-octet text
  \<open>1.2.3.4.5.6.7.8:80\<close> yields exactly the candidate \<open>5.6.7.8:80\<close>. Nothing is stated
  about the context on the left.
\<close>

theorem C2_right_context:
  "(\<forall>m \<in> set (finditer t).
      snd (span1 m) \<le> length t \<and> (snd (span1 m) = length t \<or> \<not> is_digit (t ! snd (span1 m)))) \<and>
   candidates ''1.2.3.4.5.6.7.8:80'' = [(''5.6.7.8:80'', ''5.6.7.8'')]"
proof
  show "\<forall>m \<in> set (finditer t).
      snd (span1 m) \<le> length t \<and> (snd (span1 m) = length t \<or> \<not> is_digit (t ! snd (span1 m)))"
  proof
    fix m assume "m \<in> set (finditer t)"
    then have "well_formed t m" by (rule finditer_sound)
    then show "snd (span1 m) \<le> length t \<and> (snd (span1 m) = length t \<or> \<not> is_digit (t ! snd (span1 m)))"
      unfolding well_formed_def by auto
  qed
  show "candidates ''1.2.3.4.5.6.7.8:80'' = [(''5.6.7.8:80'', ''5.6.7.8'')]"
    by code_simp
qed

theorem C2_right_context_witness:
  "\<lparr>m_start = 0, m_end = 13, span1 = (0, 12), span2 = (0, 7)\<rparr> \<in> set (finditer ''1.2.3.4:8080.5'') \<and>
   (12::nat) \<le> length ''1.2.3.4:8080.5'' \<and>
   ((12::nat) = length ''1.2.3.4:8080.5'' \<or> \<not> is_digit (''1.2.3.4:8080.5'' ! 12))"
proof -
  have m: "\<lparr>m_start = 0, m_end = 13, span1 = (0, 12), span2 = (0, 7)\<rparr> \<in> set (finditer ''1.2.3.4:8080.5'')"
    by code_simp
  from C2_right_context[of "''1.2.3.4:8080.5''", THEN conjunct1, rule_format, OF m] m
  show ?thesis by simp
qed

text \<open>
  Claim C3 at the text \<open>256.1.1.1:80\<close>: the extractor yields the candidate
  \<open>56.1.1.1:80\<close>, a match that spans the last two digits of the octet 256. (A port of
  70000 and an octet of 256 in a later position yield no match.)
\<close>

theorem C3_octet_256_partial_match:
  "candidates ''256.1.1.1:80'' = [(''56.1.1.1:80'', ''56.1.1.1'')] \<and>
   candidates ''1.2.3.4:70000'' = [] \<and> candidates ''1.2.3.256:80'' = []"
  by code_simp

section \<open>The Proxy entity and its sets\<close>

lemma same_key_iff: "same_key H q p \<longleftrightarrow> socket_address q = socket_address p"
  by (auto simp: same_key_def proxy_eq_def proxy_hash_def)

text \<open>
  Claim C6. Two Proxy values are equal exactly when their socket addresses are equal, and
  the hash is taken from the same field: two Proxy values with the same socket address
  have the same hash, whatever their other fields hold; adding the second to a set that
  has received the first leaves the set as it is, and adding both to an empty set, in
  either order, gives a set with one element.
\<close>

theorem C6_equal_by_address:
  "(proxy_eq p q \<longleftrightarrow> socket_address p = socket_address q) \<and>
   (socket_address p = socket_address q \<longrightarrow>
      proxy_hash H p = proxy_hash H q \<and>
      set_add H (set_add H s p) q = set_add H s p \<and>
      length (set_add H (set_add H [] p) q) = 1 \<and>
      length (set_add H (set_add H [] q) p) = 1)"
  by (auto simp: proxy_eq_def proxy_hash_def set_add_def same_key_def list_ex_iff)

theorem C6_equal_by_address_witness:
  "socket_address (Proxy ''1.2.3.4:80'' ''1.2.3.4'') =
     socket_address ((Proxy ''1.2.3.4:80'' ''1.2.3.4'')\<lparr>timeout := 3, is_anonymous := Some True\<rparr>) \<and>
   length (set_add (\<lambda>k. int (length (snd k)))
             (set_add (\<lambda>k. int (length (snd k))) [] (Proxy ''1.2.3.4:80'' ''1.2.3.4''))
             ((Proxy ''1.2.3.4:80'' ''1.2.3.4'')\<lparr>timeout := 3, is_anonymous := Some True\<rparr>)) = 1"
proof -
  have a: "socket_address (Proxy ''1.2.3.4:80'' ''1.2.3.4'') =
     socket_address ((Proxy ''1.2.3.4:80'' ''1.2.3.4'')\<lparr>timeout := 3, is_anonymous := Some True\<rparr>)"
    by (simp add: Proxy_def)
  from C6_equal_by_address[of "Proxy ''1.2.3.4:80'' ''1.2.3.4''"
      "(Proxy ''1.2.3.4:80'' ''1.2.3.4'')\<lparr>timeout := 3, is_anonymous := Some True\<rparr>"
      "\<lambda>k. int (length (snd k))" "[]"] a
  show ?thesis by blast
qed

section \<open>Construction\<close>

text \<open>
  Claim C8. With all four output categories disabled the constructor raises ValueError,
  whatever the other parameters are. The run of the program then ends with that error: no
  source is fetched and no candidate is checked, whatever the network would answer.
\<close>

theorem C8_all_disabled_fails:
  "init t mc sbs sp False False False False h s4 s5 =
     Inl (ValueError ''all folders are disabled in the config'') \<and>
   run H w t mc sbs sp False False False False h s4 s5 =
     Inl (ValueError ''all folders are disabled in the config'')"
  by (simp add: run_def init_def Folder_def path_name_def Let_def)

section \<open>One check\<close>

lemma map_of_dict_set:
  "map_of (dict_set d k v) k' = (if k' = k \<and> map_of d k \<noteq> None then Some v else map_of d k')"
  by (induction d) (auto simp: dict_set_def)

lemma keys_dict_set: "map fst (dict_set d k v) = map fst d"
  by (induction d) (auto simp: dict_set_def)

lemma set_remove_Inr:
  "list_ex (\<lambda>q. same_key H q p) s \<Longrightarrow> set_remove H s p = Inr (filter (\<lambda>q. socket_address q \<noteq> socket_address p) s)"
  by (simp add: set_remove_def same_key_iff)

lemma check_proxy_Raises:
  assumes "probe w proto (socket_address p) = Raises e"
    "map_of (proxies st) proto = Some s" "p \<in> set s"
  shows "\<exists>st'. check_proxy H w st p proto = Inr st' \<and>
           map_of (proxies st') proto = Some (filter (\<lambda>q. socket_address q \<noteq> socket_address p) s)"
proof -
  from assms(3) have ex: "list_ex (\<lambda>q. same_key H q p) s"
    by (auto simp: list_ex_iff same_key_iff)
  show ?thesis
  proof (cases "e = OSError 24")
    case True
    then show ?thesis
      by (simp add: check_proxy_def assms(1,2) set_remove_Inr[OF ex] map_of_dict_set)
  next
    case False
    then show ?thesis
      by (simp add: check_proxy_def assms(1,2) set_remove_Inr[OF ex] map_of_dict_set)
  qed
qed

lemma check_proxy_plain:
  assumes "probe w proto (socket_address p) = Responds status json elapsed"
    "status \<noteq> 200 \<or> \<not> truthy json"
    "map_of (proxies st) proto = Some s"
  shows "\<exists>st'. check_proxy H w st p proto = Inr st' \<and>
           map_of (proxies st') proto = Some (kept_with p (\<lambda>q. q\<lparr>timeout := enat elapsed\<rparr>) s)"
proof -
  have d: "\<not> truthy (if status = 200 then json else PNone)"
    using assms(2) by auto
  show ?thesis
    unfolding check_proxy_def assms(1) attempt.case Let_def
    by (simp only: d if_False sum.case assms(3) option.case)
       (simp add: map_of_dict_set assms(3) mutate_def same_key_iff kept_with_def)
qed

lemma check_proxy_object:
  assumes "probe w proto (socket_address p) = Responds 200 (PDict items) elapsed"
    "items \<noteq> []"
    "map_of (proxies st) proto = Some s"
  shows "\<exists>st'. check_proxy H w st p proto = Inr st' \<and>
           map_of (proxies st') proto =
             Some (kept_with p
                    (\<lambda>q. q\<lparr>timeout := enat elapsed,
                            geolocation :=
                              ''|'' @ fmt (py_str w) (get_or items ''country'' (PStr ''?'')) @
                              ''|'' @ fmt (py_str w) (get_or items ''regionName'' (PStr ''?'')) @
                              ''|'' @ fmt (py_str w) (get_or items ''city'' (PStr ''?'')),
                            is_anonymous := Some (map_of items ''query'' \<noteq> Some (PStr (ip q)))\<rparr>) s)"
  unfolding check_proxy_def assms(1) attempt.case Let_def
  using assms(2)
  by (simp add: update_def Let_def assms(3) map_of_dict_set mutate_def same_key_iff kept_with_def)

lemma check_proxy_non_object:
  assumes "probe w proto (socket_address p) = Responds 200 data elapsed"
    "truthy data" "\<forall>items. data \<noteq> PDict items"
  shows "check_proxy H w st p proto = Inl AttributeError"
  unfolding check_proxy_def assms(1) attempt.case Let_def
  using assms(2,3) by (cases data) (simp_all add: update_def)

text \<open>
  Claim C1, as stated, has a candidate whose lookup returns a status other than 200
  removed from its set. The source decodes the body only for status 200 and otherwise
  continues with no data: no exception is raised, and the candidate stays in the set with
  its timeout measured.
\<close>

theorem C1_status_404_counterexample:
  "check_proxy (\<lambda>k. 0) probe404 one_http (Proxy ''10.0.0.1:8080'' ''10.0.0.1'') ''http'' =
     Inr (one_http\<lparr>proxies := [(''http'', [(Proxy ''10.0.0.1:8080'' ''10.0.0.1'')\<lparr>timeout := enat 5\<rparr>])]\<rparr>)"
  by (simp add: check_proxy_def probe404_def one_http_def Proxy_def dict_set_def mutate_def same_key_iff)

text \<open>
  Claim C1, amended. For a candidate in its protocol's set: when the check raises (connect
  error, timeout, a body that does not decode), the check removes the candidate, and no
  element with its address is left in the set; when the lookup returns a status other than
  200, the candidate stays in the set, with the elapsed time as its timeout and its other
  fields untouched.
\<close>

theorem C1_failure_removes:
  assumes "map_of (proxies st) proto = Some s" "p \<in> set s"
  shows "(probe w proto (socket_address p) = Raises e \<longrightarrow>
            (\<exists>st' s'. check_proxy H w st p proto = Inr st' \<and>
               map_of (proxies st') proto = Some s' \<and>
               socket_address p \<notin> socket_address ` set s'))
       \<and> (probe w proto (socket_address p) = Responds status json elapsed \<and> status \<noteq> 200 \<longrightarrow>
            (\<exists>st' s'. check_proxy H w st p proto = Inr st' \<and>
               map_of (proxies st') proto = Some s' \<and>
               s' = kept_with p (\<lambda>q. q\<lparr>timeout := enat elapsed\<rparr>) s \<and>
               socket_address p \<in> socket_address ` set s'))"
proof (intro conjI impI)
  assume r: "probe w proto (socket_address p) = Raises e"
  from check_proxy_Raises[OF r assms, of H] obtain st' where
    "check_proxy H w st p proto = Inr st'"
    "map_of (proxies st') proto = Some (filter (\<lambda>q. socket_address q \<noteq> socket_address p) s)"
    by blast
  moreover have "socket_address p \<notin> socket_address ` set (filter (\<lambda>q. socket_address q \<noteq> socket_address p) s)"
    by auto
  ultimately show "\<exists>st' s'. check_proxy H w st p proto = Inr st' \<and>
               map_of (proxies st') proto = Some s' \<and>
               socket_address p \<notin> socket_address ` set s'"
    by blast
next
  assume "probe w proto (socket_address p) = Responds status json elapsed \<and> status \<noteq> 200"
  then have r: "probe w proto (socket_address p) = Responds status json elapsed"
    and ne: "status \<noteq> 200" by simp_all
  let ?s' = "kept_with p (\<lambda>q. q\<lparr>timeout := enat elapsed\<rparr>) s"
  from check_proxy_plain[OF r disjI1[OF ne] assms(1), of H] obtain st' where
    c: "check_proxy H w st p proto = Inr st'" "map_of (proxies st') proto = Some ?s'"
    by blast
  have "socket_address p \<in> socket_address ` set ?s'"
    unfolding kept_with_def set_map image_image
    by (rule image_eqI[of _ _ p]) (use assms(2) in simp_all)
  with c show "\<exists>st' s'. check_proxy H w st p proto = Inr st' \<and>
               map_of (proxies st') proto = Some s' \<and>
               s' = kept_with p (\<lambda>q. q\<lparr>timeout := enat elapsed\<rparr>) s \<and>
               socket_address p \<in> socket_address ` set s'"
    by blast
qed

theorem C1_failure_removes_witness:
  "map_of (proxies one_http) ''http'' = Some [Proxy ''10.0.0.1:8080'' ''10.0.0.1''] \<and>
   Proxy ''10.0.0.1:8080'' ''10.0.0.1'' \<in> set [Proxy ''10.0.0.1:8080'' ''10.0.0.1''] \<and>
   probe probe_timeout ''http'' (socket_address (Proxy ''10.0.0.1:8080'' ''10.0.0.1'')) = Raises TimeoutError \<and>
   (\<exists>st' s'. check_proxy (\<lambda>k. 0) probe_timeout one_http (Proxy ''10.0.0.1:8080'' ''10.0.0.1'') ''http'' = Inr st' \<and>
       map_of (proxies st') ''http'' = Some s' \<and>
       socket_address (Proxy ''10.0.0.1:8080'' ''10.0.0.1'') \<notin> socket_address ` set s') \<and>
   probe probe404 ''http'' (socket_address (Proxy ''10.0.0.1:8080'' ''10.0.0.1'')) = Responds 404 PNone 5 \<and>
   (404::nat) \<noteq> 200 \<and>
   (\<exists>st' s'. check_proxy (\<lambda>k. 0) probe404 one_http (Proxy ''10.0.0.1:8080'' ''10.0.0.1'') ''http'' = Inr st' \<and>
       map_of (proxies st') ''http'' = Some s' \<and>
       s' = kept_with (Proxy ''10.0.0.1:8080'' ''10.0.0.1'') (\<lambda>q. q\<lparr>timeout := enat 5\<rparr>) [Proxy ''10.0.0.1:8080'' ''10.0.0.1''] \<and>
       socket_address (Proxy ''10.0.0.1:8080'' ''10.0.0.1'') \<in> socket_address ` set s')"
proof -
  have a: "map_of (proxies one_http) ''http'' = Some [Proxy ''10.0.0.1:8080'' ''10.0.0.1'']"
    by (simp add: one_http_def)
  have b: "Proxy ''10.0.0.1:8080'' ''10.0.0.1'' \<in> set [Proxy ''10.0.0.1:8080'' ''10.0.0.1'']"
    by simp
  have c: "probe probe_timeout ''http'' (socket_address (Proxy ''10.0.0.1:8080'' ''10.0.0.1'')) = Raises TimeoutError"
    by (simp add: probe_timeout_def)
  have d: "probe probe404 ''http'' (socket_address (Proxy ''10.0.0.1:8080'' ''10.0.0.1'')) = Responds 404 PNone 5"
    by (simp add: probe404_def)
  have e: "(404::nat) \<noteq> 200" by simp
  from C1_failure_removes[where w = probe_timeout and e = TimeoutError and H = "\<lambda>k. 0",
        OF a b, THEN conjunct1, rule_format, OF c]
    C1_failure_removes[where w = probe404 and status = 404 and json = PNone and elapsed = 5
        and H = "\<lambda>k. 0", OF a b, THEN conjunct2, rule_format, OF conjI[OF d e]]
    a b c d e
  show ?thesis by blast
qed

text \<open>
  Claim C4, as stated, sets \<open>is_anonymous\<close> and the geolocation for every decodable
  payload. The source updates the candidate only when the payload is truthy: with the
  empty object as payload the reported IP (none) differs from the candidate's own, yet
  \<open>is_anonymous\<close> stays unknown; only the timeout is set.
\<close>

theorem C4_empty_payload_counterexample:
  "check_proxy (\<lambda>k. 0) probe_empty one_http (Proxy ''10.0.0.1:8080'' ''10.0.0.1'') ''http'' =
     Inr (one_http\<lparr>proxies := [(''http'',
        [\<lparr>socket_address = ''10.0.0.1:8080'', ip = ''10.0.0.1'', is_anonymous = None,
          geolocation = ''|?|?|?'', timeout = enat 7\<rparr>])]\<rparr>) \<and>
   map_of ([] :: (string \<times> pyval) list) ''query'' \<noteq> Some (PStr ''10.0.0.1'')"
  by (simp add: check_proxy_def probe_empty_def one_http_def Proxy_def dict_set_def mutate_def same_key_iff)

text \<open>
  Claim C4, amended. For a candidate whose check completes with status 200 and a payload
  that decodes to a non-empty JSON object: its timeout becomes the elapsed time, its
  geolocation is built from the payload's \<open>country\<close>, \<open>regionName\<close> and \<open>city\<close>
  fields (\<open>?\<close> for a field that is missing or falsy, the text of \<open>str\<close> for a value that
  is not a string), and \<open>is_anonymous\<close> becomes true exactly when the payload's
  \<open>query\<close> field is not the string of the candidate's own \<open>ip\<close> (a missing field
  differs). With a payload that is falsy (null, false, zero, or an empty string, array or
  object) only the timeout is set, and geolocation and \<open>is_anonymous\<close> stay as they
  were. In both cases the other candidates are left as they are.
\<close>

theorem C4_success_annotates:
  assumes "map_of (proxies st) proto = Some s"
    "probe w proto (socket_address p) = Responds 200 data elapsed"
  shows "(\<forall>items. data = PDict items \<and> items \<noteq> [] \<longrightarrow>
            (\<exists>st'. check_proxy H w st p proto = Inr st' \<and>
               map_of (proxies st') proto =
                 Some (kept_with p
                    (\<lambda>q. q\<lparr>timeout := enat elapsed,
                            geolocation :=
                              ''|'' @ fmt (py_str w) (get_or items ''country'' (PStr ''?'')) @
                              ''|'' @ fmt (py_str w) (get_or items ''regionName'' (PStr ''?'')) @
                              ''|'' @ fmt (py_str w) (get_or items ''city'' (PStr ''?'')),
                            is_anonymous := Some (map_of items ''query'' \<noteq> Some (PStr (ip q)))\<rparr>) s)))
       \<and> (\<not> truthy data \<longrightarrow>
            (\<exists>st'. check_proxy H w st p proto = Inr st' \<and>
               map_of (proxies st') proto =
                 Some (kept_with p (\<lambda>q. q\<lparr>timeout := enat elapsed\<rparr>) s)))"
proof (intro conjI allI impI)
  fix items assume "data = PDict items \<and> items \<noteq> []"
  then have d: "probe w proto (socket_address p) = Responds 200 (PDict items) elapsed"
    and ne: "items \<noteq> []" using assms(2) by simp_all
  from check_proxy_object[OF d ne assms(1)]
  show "\<exists>st'. check_proxy H w st p proto = Inr st' \<and>
               map_of (proxies st') proto =
                 Some (kept_with p
                    (\<lambda>q. q\<lparr>timeout := enat elapsed,
                            geolocation :=
                              ''|'' @ fmt (py_str w) (get_or items ''country'' (PStr ''?'')) @
                              ''|'' @ fmt (py_str w) (get_or items ''regionName'' (PStr ''?'')) @
                              ''|'' @ fmt (py_str w) (get_or items ''city'' (PStr ''?'')),
                            is_anonymous := Some (map_of items ''query'' \<noteq> Some (PStr (ip q)))\<rparr>) s)" .
next
  assume "\<not> truthy data"
  from check_proxy_plain[OF assms(2) disjI2[OF this] assms(1)]
  show "\<exists>st'. check_proxy H w st p proto = Inr st' \<and>
               map_of (proxies st') proto =
                 Some (kept_with p (\<lambda>q. q\<lparr>timeout := enat elapsed\<rparr>) s)" .
qed

theorem C4_success_annotates_witness:
  "map_of (proxies one_http) ''http'' = Some [Proxy ''10.0.0.1:8080'' ''10.0.0.1''] \<and>
   probe probe_us ''http'' (socket_address (Proxy ''10.0.0.1:8080'' ''10.0.0.1'')) =
      Responds 200 (PDict [(''query'', PStr ''1.2.3.4''), (''country'', PStr ''US'')]) 7 \<and>
   (\<exists>st'. check_proxy (\<lambda>k. 0) probe_us one_http (Proxy ''10.0.0.1:8080'' ''10.0.0.1'') ''http'' = Inr st' \<and>
      map_of (proxies st') ''http'' =
        Some [\<lparr>socket_address = ''10.0.0.1:8080'', ip = ''10.0.0.1'', is_anonymous = Some True,
               geolocation = ''|US|?|?'', timeout = enat 7\<rparr>]) \<and>
   probe probe_empty ''http'' (socket_address (Proxy ''10.0.0.1:8080'' ''10.0.0.1'')) =
      Responds 200 (PDict []) 7 \<and>
   \<not> truthy (PDict []) \<and>
   (\<exists>st'. check_proxy (\<lambda>k. 0) probe_empty one_http (Proxy ''10.0.0.1:8080'' ''10.0.0.1'') ''http'' = Inr st' \<and>
      map_of (proxies st') ''http'' =
        Some [\<lparr>socket_address = ''10.0.0.1:8080'', ip = ''10.0.0.1'', is_anonymous = None,
               geolocation = ''|?|?|?'', timeout = enat 7\<rparr>])"
proof -
  have a: "map_of (proxies one_http) ''http'' = Some [Proxy ''10.0.0.1:8080'' ''10.0.0.1'']"
    by (simp add: one_http_def)
  have b: "probe probe_us ''http'' (socket_address (Proxy ''10.0.0.1:8080'' ''10.0.0.1'')) =
      Responds 200 (PDict [(''query'', PStr ''1.2.3.4''), (''country'', PStr ''US'')]) 7"
    by (simp add: probe_us_def)
  have c: "PDict [(''query'', PStr ''1.2.3.4''), (''country'', PStr ''US'')] =
             PDict [(''query'', PStr ''1.2.3.4''), (''country'', PStr ''US'')] \<and>
           [(''query'', PStr ''1.2.3.4''), (''country'', PStr ''US'')] \<noteq> []"
    by simp
  have d: "probe probe_empty ''http'' (socket_address (Proxy ''10.0.0.1:8080'' ''10.0.0.1'')) =
      Responds 200 (PDict []) 7"
    by (simp add: probe_empty_def)
  have e: "\<not> truthy (PDict [])" by simp
  from C4_success_annotates[where H = "\<lambda>k. 0", OF a b, THEN conjunct1, rule_format, OF c]
  have x: "\<exists>st'. check_proxy (\<lambda>k. 0) probe_us one_http (Proxy ''10.0.0.1:8080'' ''10.0.0.1'') ''http'' = Inr st' \<and>
      map_of (proxies st') ''http'' =
        Some [\<lparr>socket_address = ''10.0.0.1:8080'', ip = ''10.0.0.1'', is_anonymous = Some True,
               geolocation = ''|US|?|?'', timeout = enat 7\<rparr>]"
    by (simp add: kept_with_def Proxy_def get_or_def fmt_def)
  from C4_success_annotates[where H = "\<lambda>k. 0", OF a d, THEN conjunct2, rule_format, OF e]
  have y: "\<exists>st'. check_proxy (\<lambda>k. 0) probe_empty one_http (Proxy ''10.0.0.1:8080'' ''10.0.0.1'') ''http'' = Inr st' \<and>
      map_of (proxies st') ''http'' =
        Some [\<lparr>socket_address = ''10.0.0.1:8080'', ip = ''10.0.0.1'', is_anonymous = None,
               geolocation = ''|?|?|?'', timeout = enat 7\<rparr>]"
    by (simp add: kept_with_def Proxy_def)
  from a b x d e y show ?thesis by blast
qed

section \<open>The check stage\<close>

lemma no_new_refl: "no_new s s"
  by (auto simp: no_new_def)

lemma no_new_trans: "no_new a b \<Longrightarrow> no_new b c \<Longrightarrow> no_new a c"
  unfolding no_new_def by (metis le_trans)

lemma only_shrinks_refl: "only_shrinks d d"
  by (simp add: only_shrinks_def no_new_refl)

lemma only_shrinks_trans:
  assumes "only_shrinks a b" "only_shrinks b c"
  shows "only_shrinks a c"
  unfolding only_shrinks_def
proof (intro conjI allI impI)
  show "map fst c = map fst a" using assms by (simp add: only_shrinks_def)
next
  fix proto s' assume "map_of c proto = Some s'"
  with assms(2) obtain s1 where s1: "map_of b proto = Some s1" "no_new s1 s'"
    unfolding only_shrinks_def by blast
  with assms(1) obtain s where "map_of a proto = Some s" "no_new s s1"
    unfolding only_shrinks_def by blast
  with s1 show "\<exists>s. map_of a proto = Some s \<and> no_new s s'"
    using no_new_trans by blast
qed

lemma only_shrinks_dict_set:
  assumes "map_of d k = Some s" "no_new s s'"
  shows "only_shrinks d (dict_set d k s')"
  unfolding only_shrinks_def
  using assms by (auto simp: keys_dict_set map_of_dict_set no_new_refl)

lemma no_new_filter: "no_new s (filter P s)"
  by (auto simp: no_new_def)

lemma no_new_kept_with:
  assumes "\<And>q. socket_address (f q) = socket_address q \<and> ip (f q) = ip q"
  shows "no_new s (kept_with p f s)"
  unfolding no_new_def kept_with_def using assms by auto

lemma update_keeps:
  "update S q data = Inr q' \<Longrightarrow> socket_address q' = socket_address q \<and> ip q' = ip q"
  by (cases data) (auto simp: update_def Let_def)

lemma check_proxy_shrinks:
  assumes "check_proxy H w st p proto = Inr st'"
  shows "only_shrinks (proxies st) (proxies st')"
proof (cases "map_of (proxies st) proto")
  case None
  with assms have "proxies st' = proxies st"
    by (cases "probe w proto (socket_address p)")
       (auto simp: check_proxy_def Let_def split: if_splits sum.splits)
  then show ?thesis by (simp add: only_shrinks_refl)
next
  case (Some s)
  show ?thesis
  proof (cases "probe w proto (socket_address p)")
    case (Raises e)
    from assms obtain s' where
      r: "set_remove H s p = Inr s'" and
      p: "proxies st' = dict_set (proxies st) proto s'"
      by (cases "set_remove H s p"; cases "e = OSError 24")
         (auto simp: check_proxy_def Raises Some)
    from r have "s' = filter (\<lambda>q. \<not> same_key H q p) s"
      by (auto simp: set_remove_def split: if_splits)
    then have "no_new s s'" by (simp add: no_new_filter)
    with Some p show ?thesis by (simp add: only_shrinks_dict_set)
  next
    case (Responds status json elapsed)
    let ?data = "if status = 200 then json else PNone"
    let ?f = "\<lambda>q. if truthy ?data then update (py_str w) (q\<lparr>timeout := enat elapsed\<rparr>) ?data
                   else Inr (q\<lparr>timeout := enat elapsed\<rparr>)"
    let ?g = "\<lambda>q. case ?f q of Inl err \<Rightarrow> q | Inr q' \<Rightarrow> q'"
    have g: "socket_address (?g q) = socket_address q \<and> ip (?g q) = ip q" for q
    proof (cases "?f q")
      case (Inl err)
      then show ?thesis by simp
    next
      case (Inr q')
      then have "socket_address q' = socket_address q \<and> ip q' = ip q"
        using update_keeps[of "py_str w" "q\<lparr>timeout := enat elapsed\<rparr>" ?data q']
        by (auto split: if_splits)
      with Inr show ?thesis by simp
    qed
    have "proxies st' = dict_set (proxies st) proto (mutate H ?g p s)"
      using assms unfolding check_proxy_def Responds attempt.case Let_def
      by (cases "?f p") (auto simp: Some)
    moreover have "mutate H ?g p s = kept_with p ?g s"
      by (simp add: mutate_def kept_with_def same_key_iff)
    ultimately show ?thesis
      using only_shrinks_dict_set[OF Some no_new_kept_with[of ?g s p, OF g]] by simp
  qed
qed

lemma check_each_shrinks:
  "check_each H w st work = Inr st' \<Longrightarrow> only_shrinks (proxies st) (proxies st')"
proof (induction work arbitrary: st)
  case Nil
  then show ?case by (simp add: only_shrinks_refl)
next
  case (Cons x work)
  obtain proto p where x: "x = (proto, p)" by (cases x)
  from Cons.prems obtain st1 where
    s: "check_proxy H w st p proto = Inr st1" "check_each H w st1 work = Inr st'"
    by (auto simp: x split: sum.splits)
  from check_proxy_shrinks[OF s(1)] Cons.IH[OF s(2)] show ?case
    by (rule only_shrinks_trans)
qed

text \<open>
  Claim C9. When the check stage returns, the protocols are the same as before, and for
  every protocol each element of the set after the checks is an element of the set before
  them (the same socket address and ip; only the measured fields may have changed), so
  the set has not grown.
\<close>

theorem C9_check_never_adds:
  assumes "check_all_proxies H w st = Inr st'"
  shows "map fst (proxies st') = map fst (proxies st) \<and>
         (\<forall>proto s'. map_of (proxies st') proto = Some s' \<longrightarrow>
            (\<exists>s. map_of (proxies st) proto = Some s \<and>
                 (\<forall>p' \<in> set s'. \<exists>p \<in> set s. socket_address p' = socket_address p \<and> ip p' = ip p) \<and>
                 length s' \<le> length s))"
proof -
  from assms have "\<exists>work. check_each H w st work = Inr st'"
    by (auto simp: check_all_proxies_def Let_def split: option.splits if_splits)
  then have "only_shrinks (proxies st) (proxies st')"
    using check_each_shrinks by blast
  then show ?thesis
    unfolding only_shrinks_def no_new_def by blast
qed

lemma check_two_http:
  "check_all_proxies (\<lambda>k. 0) probe_mixed two_http =
     Inr (two_http\<lparr>proxies := [(''http'',
        [\<lparr>socket_address = ''10.0.0.1:8080'', ip = ''10.0.0.1'', is_anonymous = Some True,
          geolocation = ''|US|?|?'', timeout = enat 7\<rparr>])]\<rparr>)"
  by (simp add: check_all_proxies_def probe_mixed_def two_http_def check_proxy_def Proxy_def
      set_remove_def same_key_iff dict_set_def mutate_def update_def get_or_def fmt_def Let_def)

theorem C9_check_never_adds_witness:
  "check_all_proxies (\<lambda>k. 0) probe_mixed two_http =
     Inr (two_http\<lparr>proxies := [(''http'',
        [\<lparr>socket_address = ''10.0.0.1:8080'', ip = ''10.0.0.1'', is_anonymous = Some True,
          geolocation = ''|US|?|?'', timeout = enat 7\<rparr>])]\<rparr>) \<and>
   map fst (proxies (two_http\<lparr>proxies := [(''http'',
        [\<lparr>socket_address = ''10.0.0.1:8080'', ip = ''10.0.0.1'', is_anonymous = Some True,
          geolocation = ''|US|?|?'', timeout = enat 7\<rparr>])]\<rparr>)) = map fst (proxies two_http) \<and>
   (\<exists>s. map_of (proxies two_http) ''http'' = Some s \<and>
        (\<forall>p' \<in> set [\<lparr>socket_address = ''10.0.0.1:8080'', ip = ''10.0.0.1'', is_anonymous = Some True,
                        geolocation = ''|US|?|?'', timeout = enat 7\<rparr>].
            \<exists>p \<in> set s. socket_address p' = socket_address p \<and> ip p' = ip p) \<and>
        length [\<lparr>socket_address = ''10.0.0.1:8080'', ip = ''10.0.0.1'', is_anonymous = Some True,
                 geolocation = ''|US|?|?'', timeout = enat 7\<rparr>] \<le> length s)"
proof -
  note c = check_two_http
  from C9_check_never_adds[OF c] have
    k: "map fst (proxies (two_http\<lparr>proxies := [(''http'',
        [\<lparr>socket_address = ''10.0.0.1:8080'', ip = ''10.0.0.1'', is_anonymous = Some True,
          geolocation = ''|US|?|?'', timeout = enat 7\<rparr>])]\<rparr>)) = map fst (proxies two_http)"
    and a: "\<forall>proto s'. map_of (proxies (two_http\<lparr>proxies := [(''http'',
        [\<lparr>socket_address = ''10.0.0.1:8080'', ip = ''10.0.0.1'', is_anonymous = Some True,
          geolocation = ''|US|?|?'', timeout = enat 7\<rparr>])]\<rparr>)) proto = Some s' \<longrightarrow>
            (\<exists>s. map_of (proxies two_http) proto = Some s \<and>
                 (\<forall>p' \<in> set s'. \<exists>p \<in> set s. socket_address p' = socket_address p \<and> ip p' = ip p) \<and>
                 length s' \<le> length s)"
    by blast+
  from a[rule_format, of "''http''" "[\<lparr>socket_address = ''10.0.0.1:8080'', ip = ''10.0.0.1'', is_anonymous = Some True,
          geolocation = ''|US|?|?'', timeout = enat 7\<rparr>]"]
  have "\<exists>s. map_of (proxies two_http) ''http'' = Some s \<and>
        (\<forall>p' \<in> set [\<lparr>socket_address = ''10.0.0.1:8080'', ip = ''10.0.0.1'', is_anonymous = Some True,
                        geolocation = ''|US|?|?'', timeout = enat 7\<rparr>].
            \<exists>p \<in> set s. socket_address p' = socket_address p \<and> ip p' = ip p) \<and>
        length [\<lparr>socket_address = ''10.0.0.1:8080'', ip = ''10.0.0.1'', is_anonymous = Some True,
                 geolocation = ''|US|?|?'', timeout = enat 7\<rparr>] \<le> length s"
    by simp
  with c k show ?thesis by blast
qed

section \<open>Sorting by address\<close>

lemma sequence_all2:
  "sequence (map f xs) = Inr ys \<Longrightarrow> list_all2 (\<lambda>x y. f x = Inr y) xs ys"
proof (induction xs arbitrary: ys)
  case Nil
  then show ?case by simp
next
  case (Cons x xs)
  then show ?case by (auto split: sum.splits)
qed

lemma sequence_set:
  "sequence (map f xs) = Inr ys \<Longrightarrow> y \<in> set ys \<Longrightarrow> \<exists>x \<in> set xs. f x = Inr y"
proof (induction xs arbitrary: ys)
  case Nil
  then show ?case by simp
next
  case (Cons x xs)
  then show ?case by (auto split: sum.splits)
qed

lemma sequence_total:
  "(\<forall>x \<in> set xs. \<exists>y. f x = Inr y) \<Longrightarrow> \<exists>ys. sequence (map f xs) = Inr ys"
  by (induction xs) auto

lemma sequence_of_pairs:
  "(\<forall>z \<in> set zs. f (snd z) = Inr (fst z)) \<Longrightarrow> sequence (map f (map snd zs)) = Inr (map fst zs)"
  by (induction zs) auto

lemma key_2: "socket_address p = ''2.0.0.1:80'' \<Longrightarrow> alphabet_sorting_key p = Inr [2, 0, 0, 1, 80]"
proof -
  have "sequence (map py_int (split CHR ''.'' (replace CHR '':'' CHR ''.'' ''2.0.0.1:80''))) = Inr [2, 0, 0, 1, 80]"
    by code_simp
  then show "socket_address p = ''2.0.0.1:80'' \<Longrightarrow> alphabet_sorting_key p = Inr [2, 0, 0, 1, 80]"
    by (simp add: alphabet_sorting_key_def)
qed

lemma key_10: "socket_address p = ''10.0.0.1:80'' \<Longrightarrow> alphabet_sorting_key p = Inr [10, 0, 0, 1, 80]"
proof -
  have "sequence (map py_int (split CHR ''.'' (replace CHR '':'' CHR ''.'' ''10.0.0.1:80''))) = Inr [10, 0, 0, 1, 80]"
    by code_simp
  then show "socket_address p = ''10.0.0.1:80'' \<Longrightarrow> alphabet_sorting_key p = Inr [10, 0, 0, 1, 80]"
    by (simp add: alphabet_sorting_key_def)
qed

lemma sorted_by_total:
  "(\<forall>p \<in> set ps. \<exists>k. key p = Inr k) \<Longrightarrow> \<exists>out. sorted_by key ps = Inr out"
  using sequence_total[of ps key] by (auto simp: sorted_by_def)

lemma sorted_by_mset:
  assumes "sorted_by key ps = Inr out"
  shows "mset out = mset ps"
proof -
  from assms obtain ks where
    ks: "sequence (map key ps) = Inr ks" and out: "out = map snd (sort_key fst (zip ks ps))"
    by (auto simp: sorted_by_def split: sum.splits)
  from sequence_all2[OF ks] have len: "length ks = length ps" by (simp add: list_all2_lengthD)
  have "mset out = image_mset snd (mset (zip ks ps))" by (simp add: out)
  also have "\<dots> = mset (map snd (zip ks ps))" by simp
  also have "\<dots> = mset ps" using len by simp
  finally show ?thesis .
qed

lemma sorted_by_sound:
  assumes "sorted_by key ps = Inr out"
  shows "\<exists>ks. sequence (map key out) = Inr ks \<and> sorted ks \<and> length ks = length out \<and>
           set out = set ps \<and> length out = length ps"
proof -
  from assms obtain ks where
    ks: "sequence (map key ps) = Inr ks" and out: "out = map snd (sort_key fst (zip ks ps))"
    by (auto simp: sorted_by_def split: sum.splits)
  let ?zs = "sort_key fst (zip ks ps)"
  from sequence_all2[OF ks] have a2: "list_all2 (\<lambda>p k. key p = Inr k) ps ks" .
  then have len: "length ks = length ps" by (simp add: list_all2_lengthD)
  have "\<forall>z \<in> set (zip ks ps). key (snd z) = Inr (fst z)"
    using a2 by (auto simp: list_all2_conv_all_nth in_set_zip)
  then have "\<forall>z \<in> set ?zs. key (snd z) = Inr (fst z)" by simp
  then have s: "sequence (map key out) = Inr (map fst ?zs)"
    unfolding out by (rule sequence_of_pairs)
  have srt: "sorted (map fst ?zs)" by (rule sorted_sort_key)
  have "set out = snd ` set (zip ks ps)" by (simp add: out)
  also have "\<dots> = set (map snd (zip ks ps))" by simp
  also have "\<dots> = set ps" using len by simp
  finally have st: "set out = set ps" .
  have l: "length out = length ps" using len by (simp add: out)
  from s srt st l len show ?thesis by auto
qed

lemma sorted_by_order:
  assumes "sorted_by alphabet_sorting_key ps = Inr out"
    "i < length out" "j < length out"
    "socket_address (out ! i) = ''2.0.0.1:80''" "socket_address (out ! j) = ''10.0.0.1:80''"
  shows "i < j"
proof (rule ccontr)
  assume "\<not> i < j"
  then have ji: "j \<le> i" by simp
  from sorted_by_sound[OF assms(1)] obtain ks where
    ks: "sequence (map alphabet_sorting_key out) = Inr ks" "sorted ks" "length ks = length out"
    by blast
  from sequence_all2[OF ks(1)] assms(2,3)
  have "alphabet_sorting_key (out ! i) = Inr (ks ! i)" "alphabet_sorting_key (out ! j) = Inr (ks ! j)"
    by (simp_all add: list_all2_conv_all_nth)
  with key_2[OF assms(4)] key_10[OF assms(5)]
  have k: "ks ! i = [2, 0, 0, 1, 80]" "ks ! j = [10, 0, 0, 1, 80]" by simp_all
  from ks(2) ji assms(2) ks(3) have "ks ! j \<le> ks ! i"
    by (simp add: sorted_nth_mono)
  with k show False by simp
qed

lemma split_from_nosep: "sep \<notin> set a \<Longrightarrow> split_from sep acc a = [rev acc @ a]"
  by (induction a arbitrary: acc) auto

lemma split_from_sep:
  "sep \<notin> set a \<Longrightarrow> split_from sep acc (a @ sep # rest) = (rev acc @ a) # split_from sep [] rest"
  by (induction a arbitrary: acc) auto

lemma digit_not_sep: "is_digit c \<Longrightarrow> c \<noteq> CHR ''.'' \<and> c \<noteq> CHR '':''"
  by (auto simp: is_digit_def)

lemma digits_no_dot: "list_all is_digit a \<Longrightarrow> CHR ''.'' \<notin> set a"
  using digit_not_sep by (auto simp: list_all_iff)

lemma replace_digits: "list_all is_digit a \<Longrightarrow> replace CHR '':'' CHR ''.'' a = a"
  unfolding replace_def using digit_not_sep by (induction a) auto

lemma replace_append: "replace x y (a @ b) = replace x y a @ replace x y b"
  by (simp add: replace_def)

lemma int_body_digits: "list_all is_digit a \<Longrightarrow> int_body need a = (a \<noteq> [] \<or> \<not> need)"
  by (induction a arbitrary: need) auto

lemma digit_not_space: "is_digit c \<Longrightarrow> \<not> int_space c \<and> c \<noteq> CHR ''+'' \<and> c \<noteq> CHR ''-''"
  by (auto simp: is_digit_def int_space_def)

lemma py_int_digits:
  assumes "plain_number a" "length a \<le> 4300"
  shows "py_int a = Inr (int (digits_value a))"
proof -
  from assms(1) have ne: "a \<noteq> []" and d: "list_all is_digit a"
    by (simp_all add: plain_number_def)
  from ne d have h: "is_digit (hd a)" "is_digit (last a)"
    by (simp_all add: list_all_iff)
  have 1: "dropWhile int_space a = a"
    using ne h(1) digit_not_space by (simp add: dropWhile_eq_self_iff)
  have 2: "dropWhile int_space (rev a) = rev a"
    using ne h(2) digit_not_space by (simp add: dropWhile_eq_self_iff hd_rev)
  have 3: "filter is_digit a = a"
    using d by (simp add: list_all_iff)
  have 4: "int_body True a" using d ne by (simp add: int_body_digits)
  have 5: "hd a \<noteq> CHR ''+'' \<and> hd a \<noteq> CHR ''-''" using h(1) digit_not_space by blast
  show ?thesis
    by (simp add: py_int_def Let_def 1 2 3 4 5 assms(2))
qed

lemma digits_value_snoc: "digits_value (ys @ [c]) = 10 * digits_value ys + dv c"
  by (simp add: digits_value_def)

lemma digits_value_lower:
  "list_all is_digit x \<Longrightarrow> x \<noteq> [] \<Longrightarrow> hd x \<noteq> CHR ''0'' \<Longrightarrow> 10 ^ (length x - 1) \<le> digits_value x"
proof (induction x rule: rev_induct)
  case Nil
  then show ?case by simp
next
  case (snoc c ys)
  show ?case
  proof (cases "ys = []")
    case True
    with snoc.prems have "is_digit c" "c \<noteq> CHR ''0''" by simp_all
    then have "1 \<le> dv c" using of_char_zero[of c] by (auto simp: is_digit_def dv_def)
    with True show ?thesis by (simp add: digits_value_snoc digits_value_def)
  next
    case False
    with snoc.prems have "list_all is_digit ys" "hd ys \<noteq> CHR ''0''" by simp_all
    from snoc.IH[OF this(1) False this(2)]
    have "10 * 10 ^ (length ys - 1) \<le> 10 * digits_value ys" by simp
    moreover have "10 * 10 ^ (length ys - 1) = (10::nat) ^ length ys"
      using False by (cases ys) simp_all
    ultimately show ?thesis by (simp add: digits_value_snoc)
  qed
qed

lemma plain_short:
  assumes "plain_number x" "digits_value x \<le> 65535"
  shows "length x \<le> 4300"
proof (cases "1 < length x")
  case False
  then show ?thesis by simp
next
  case True
  with assms(1) have "list_all is_digit x" "x \<noteq> []" "hd x \<noteq> CHR ''0''"
    by (auto simp: plain_number_def)
  from digits_value_lower[OF this] assms(2)
  have "(10::nat) ^ (length x - 1) < 10 ^ 5" by simp
  then have "length x - 1 < 5" by (simp only: power_strict_increasing_iff)
  then show ?thesis by simp
qed

lemma alphabet_key_numbers:
  assumes "socket_address q = o1 @ ''.'' @ o2 @ ''.'' @ o3 @ ''.'' @ o4 @ '':'' @ pt"
    "plain_number o1" "plain_number o2" "plain_number o3" "plain_number o4" "plain_number pt"
    "length o1 \<le> 4300" "length o2 \<le> 4300" "length o3 \<le> 4300" "length o4 \<le> 4300"
    "length pt \<le> 4300"
  shows "alphabet_sorting_key q =
           Inr [int (digits_value o1), int (digits_value o2), int (digits_value o3),
                int (digits_value o4), int (digits_value pt)]"
proof -
  have d: "list_all is_digit o1" "list_all is_digit o2" "list_all is_digit o3"
    "list_all is_digit o4" "list_all is_digit pt"
    using assms(2-6) by (simp_all add: plain_number_def)
  have r: "replace CHR '':'' CHR ''.'' (socket_address q) =
        o1 @ CHR ''.'' # o2 @ CHR ''.'' # o3 @ CHR ''.'' # o4 @ CHR ''.'' # pt"
    unfolding assms(1) replace_append by (simp add: replace_digits d) (simp add: replace_def)
  have s: "split CHR ''.'' (o1 @ CHR ''.'' # o2 @ CHR ''.'' # o3 @ CHR ''.'' # o4 @ CHR ''.'' # pt) =
        [o1, o2, o3, o4, pt]"
    unfolding split_def
    by (simp add: split_from_sep split_from_nosep digits_no_dot d)
  show ?thesis
    unfolding alphabet_sorting_key_def r s
    by (simp add: py_int_digits assms(2-11))
qed

lemma candidate_key:
  assumes "candidate_shape c" "socket_address q = fst c"
  shows "\<exists>k. alphabet_sorting_key q = Inr k"
proof -
  from assms(1) obtain o1 o2 o3 o4 pt where
    c: "snd c = o1 @ ''.'' @ o2 @ ''.'' @ o3 @ ''.'' @ o4" "fst c = snd c @ '':'' @ pt"
    and ok: "octet_ok o1" "octet_ok o2" "octet_ok o3" "octet_ok o4" "port_ok pt"
    unfolding candidate_shape_def by blast
  from c assms(2) have a: "socket_address q = o1 @ ''.'' @ o2 @ ''.'' @ o3 @ ''.'' @ o4 @ '':'' @ pt"
    by simp
  from ok have pl: "plain_number o1" "plain_number o2" "plain_number o3" "plain_number o4"
    "plain_number pt"
    and v: "digits_value o1 \<le> 65535" "digits_value o2 \<le> 65535" "digits_value o3 \<le> 65535"
      "digits_value o4 \<le> 65535" "digits_value pt \<le> 65535"
    by (simp_all add: octet_ok_def port_ok_def)
  from alphabet_key_numbers[OF a pl plain_short[OF pl(1) v(1)] plain_short[OF pl(2) v(2)]
      plain_short[OF pl(3) v(3)] plain_short[OF pl(4) v(4)] plain_short[OF pl(5) v(5)]]
  show ?thesis by blast
qed

lemma sorted_by_spec:
  assumes "sorted_by alphabet_sorting_key ps = Inr out"
  shows "mset out = mset ps \<and>
         (\<exists>ks. sequence (map alphabet_sorting_key out) = Inr ks \<and> sorted ks) \<and>
         (\<forall>i j. i < length out \<and> j < length out \<and>
                socket_address (out ! i) = ''2.0.0.1:80'' \<and>
                socket_address (out ! j) = ''10.0.0.1:80'' \<longrightarrow> i < j) \<and>
         (\<forall>p q. p \<in> set ps \<and> q \<in> set ps \<and>
                socket_address p = ''2.0.0.1:80'' \<and> socket_address q = ''10.0.0.1:80'' \<longrightarrow>
                (\<exists>i j. i < j \<and> j < length out \<and> out ! i = p \<and> out ! j = q))"
proof (intro conjI allI impI)
  show m: "mset out = mset ps" by (rule sorted_by_mset[OF assms])
  from sorted_by_sound[OF assms]
  show "\<exists>ks. sequence (map alphabet_sorting_key out) = Inr ks \<and> sorted ks" by blast
  {
    fix i j
    assume "i < length out \<and> j < length out \<and>
                socket_address (out ! i) = ''2.0.0.1:80'' \<and>
                socket_address (out ! j) = ''10.0.0.1:80''"
    then show "i < j" using sorted_by_order[OF assms] by blast
  }
  {
    fix p q
    assume h: "p \<in> set ps \<and> q \<in> set ps \<and>
                socket_address p = ''2.0.0.1:80'' \<and> socket_address q = ''10.0.0.1:80''"
    from m have "set out = set ps" by (rule mset_eq_setD)
    with h obtain i j where ij: "i < length out" "out ! i = p" "j < length out" "out ! j = q"
      by (metis in_set_conv_nth)
    with h have "i < j" using sorted_by_order[OF assms, of i j] by simp
    with ij show "\<exists>i j. i < j \<and> j < length out \<and> out ! i = p \<and> out ! j = q" by blast
  }
qed

text \<open>
  Claim C7. With sorting by address, when every address in the sets can be read as numbers
  (as every address from the extractor can), \<open>sorted_proxies\<close> returns a list for every
  protocol, in the order of the protocols. Each list is a rearrangement of the protocol's
  set with its keys in ascending order; every candidate \<open>2.0.0.1:80\<close> in it stands
  before every candidate \<open>10.0.0.1:80\<close>, and when the set holds both, so does the list,
  the first before the second. The key of an address written as four plain octets and a
  plain port is the list of these five numbers, compared from the first octet on.
\<close>

theorem C7_address_sort_numeric:
  assumes "\<not> sort_by_speed st"
    "\<forall>proto ps p. (proto, ps) \<in> set (proxies st) \<and> p \<in> set ps \<longrightarrow>
        (\<exists>k. alphabet_sorting_key p = Inr k)"
  shows "(\<exists>res. sorted_proxies st = Inr res \<and>
            list_all2 (\<lambda>(proto, ps) (proto', out).
                proto' = proto \<and> mset out = mset ps \<and>
                (\<exists>ks. sequence (map alphabet_sorting_key out) = Inr ks \<and> sorted ks) \<and>
                (\<forall>i j. i < length out \<and> j < length out \<and>
                       socket_address (out ! i) = ''2.0.0.1:80'' \<and>
                       socket_address (out ! j) = ''10.0.0.1:80'' \<longrightarrow> i < j) \<and>
                (\<forall>p q. p \<in> set ps \<and> q \<in> set ps \<and>
                       socket_address p = ''2.0.0.1:80'' \<and>
                       socket_address q = ''10.0.0.1:80'' \<longrightarrow>
                       (\<exists>i j. i < j \<and> j < length out \<and> out ! i = p \<and> out ! j = q)))
              (proxies st) res) \<and>
         (\<forall>q o1 o2 o3 o4 pt.
            socket_address q = o1 @ ''.'' @ o2 @ ''.'' @ o3 @ ''.'' @ o4 @ '':'' @ pt \<and>
            plain_number o1 \<and> plain_number o2 \<and> plain_number o3 \<and> plain_number o4 \<and>
            plain_number pt \<and> length o1 \<le> 4300 \<and> length o2 \<le> 4300 \<and> length o3 \<le> 4300 \<and>
            length o4 \<le> 4300 \<and> length pt \<le> 4300 \<longrightarrow>
            alphabet_sorting_key q =
              Inr [int (digits_value o1), int (digits_value o2), int (digits_value o3),
                   int (digits_value o4), int (digits_value pt)]) \<and>
         (\<forall>text c q. c \<in> set (candidates text) \<and> socket_address q = fst c \<longrightarrow>
            (\<exists>k. alphabet_sorting_key q = Inr k))"
proof -
  let ?g = "\<lambda>(proto, s). (case sorted_by alphabet_sorting_key s of
           Inl e \<Rightarrow> Inl e
         | Inr xs \<Rightarrow> Inr (proto, xs))"
  let ?P = "\<lambda>(proto, ps) (proto', out).
                proto' = proto \<and> mset out = mset ps \<and>
                (\<exists>ks. sequence (map alphabet_sorting_key out) = Inr ks \<and> sorted ks) \<and>
                (\<forall>i j. i < length out \<and> j < length out \<and>
                       socket_address (out ! i) = ''2.0.0.1:80'' \<and>
                       socket_address (out ! j) = ''10.0.0.1:80'' \<longrightarrow> i < j) \<and>
                (\<forall>p q. p \<in> set ps \<and> q \<in> set ps \<and>
                       socket_address p = ''2.0.0.1:80'' \<and>
                       socket_address q = ''10.0.0.1:80'' \<longrightarrow>
                       (\<exists>i j. i < j \<and> j < length out \<and> out ! i = p \<and> out ! j = q))"
  have sp: "sorted_proxies st = sequence (map ?g (proxies st))"
    using assms(1) by (simp add: sorted_proxies_def)
  have tot: "\<forall>x \<in> set (proxies st). \<exists>y. ?g x = Inr y"
  proof
    fix x assume x: "x \<in> set (proxies st)"
    obtain proto ps where xp: "x = (proto, ps)" by (cases x)
    with x assms(2) have "\<forall>p \<in> set ps. \<exists>k. alphabet_sorting_key p = Inr k" by blast
    from sorted_by_total[OF this] obtain out where "sorted_by alphabet_sorting_key ps = Inr out" ..
    then show "\<exists>y. ?g x = Inr y" by (simp add: xp)
  qed
  from sequence_total[OF tot] obtain res where res: "sequence (map ?g (proxies st)) = Inr res" ..
  from sequence_all2[OF res] have a2: "list_all2 (\<lambda>x y. ?g x = Inr y) (proxies st) res" .
  have step: "?P x y" if "?g x = Inr y" for x y
  proof -
    obtain proto ps where xp: "x = (proto, ps)" by (cases x)
    obtain proto' out where yp: "y = (proto', out)" by (cases y)
    from that have s: "sorted_by alphabet_sorting_key ps = Inr out" and e: "proto' = proto"
      by (auto simp: xp yp split: sum.splits)
    from sorted_by_spec[OF s] e show ?thesis unfolding xp yp prod.case by (rule conjI[rotated])
  qed
  have "list_all2 ?P (proxies st) res"
    by (rule list_all2_mono[OF a2]) (rule step)
  with sp res have sorting: "\<exists>res. sorted_proxies st = Inr res \<and> list_all2 ?P (proxies st) res"
    by simp
  have numbers:
    "\<forall>q o1 o2 o3 o4 pt.
        socket_address q = o1 @ ''.'' @ o2 @ ''.'' @ o3 @ ''.'' @ o4 @ '':'' @ pt \<and>
        plain_number o1 \<and> plain_number o2 \<and> plain_number o3 \<and> plain_number o4 \<and>
        plain_number pt \<and> length o1 \<le> 4300 \<and> length o2 \<le> 4300 \<and> length o3 \<le> 4300 \<and>
        length o4 \<le> 4300 \<and> length pt \<le> 4300 \<longrightarrow>
        alphabet_sorting_key q =
          Inr [int (digits_value o1), int (digits_value o2), int (digits_value o3),
               int (digits_value o4), int (digits_value pt)]"
    using alphabet_key_numbers by blast
  have extracted: "\<forall>text c q. c \<in> set (candidates text) \<and> socket_address q = fst c \<longrightarrow>
            (\<exists>k. alphabet_sorting_key q = Inr k)"
    using candidate_key candidates_shape by blast
  show ?thesis
    by (rule conjI[OF sorting conjI[OF numbers extracted]])
qed

lemma sorted_unsorted_http:
  "sorted_proxies unsorted_http =
     Inr [(''http'', [Proxy ''2.0.0.1:80'' ''2.0.0.1'', Proxy ''10.0.0.1:80'' ''10.0.0.1''])]"
  by code_simp

theorem C7_address_sort_numeric_witness:
  "\<not> sort_by_speed unsorted_http \<and>
   proxies unsorted_http = [(''http'', [Proxy ''10.0.0.1:80'' ''10.0.0.1'', Proxy ''2.0.0.1:80'' ''2.0.0.1''])] \<and>
   alphabet_sorting_key (Proxy ''10.0.0.1:80'' ''10.0.0.1'') = Inr [10, 0, 0, 1, 80] \<and>
   alphabet_sorting_key (Proxy ''2.0.0.1:80'' ''2.0.0.1'') = Inr [2, 0, 0, 1, 80] \<and>
   sorted_proxies unsorted_http =
     Inr [(''http'', [Proxy ''2.0.0.1:80'' ''2.0.0.1'', Proxy ''10.0.0.1:80'' ''10.0.0.1''])] \<and>
   (\<exists>res. sorted_proxies unsorted_http = Inr res \<and> length res = length (proxies unsorted_http))"
proof -
  have a: "\<not> sort_by_speed unsorted_http" by (simp add: unsorted_http_def)
  have b: "proxies unsorted_http = [(''http'', [Proxy ''10.0.0.1:80'' ''10.0.0.1'', Proxy ''2.0.0.1:80'' ''2.0.0.1''])]"
    by (simp add: unsorted_http_def)
  have k10: "alphabet_sorting_key (Proxy ''10.0.0.1:80'' ''10.0.0.1'') = Inr [10, 0, 0, 1, 80]"
    by (rule key_10) (simp add: Proxy_def)
  have k2: "alphabet_sorting_key (Proxy ''2.0.0.1:80'' ''2.0.0.1'') = Inr [2, 0, 0, 1, 80]"
    by (rule key_2) (simp add: Proxy_def)
  have h: "\<forall>proto ps p. (proto, ps) \<in> set (proxies unsorted_http) \<and> p \<in> set ps \<longrightarrow>
        (\<exists>k. alphabet_sorting_key p = Inr k)"
    unfolding b using k10 k2 by auto
  note c = sorted_unsorted_http
  from C7_address_sort_numeric[OF a h, THEN conjunct1]
  have "\<exists>res. sorted_proxies unsorted_http = Inr res \<and> length res = length (proxies unsorted_http)"
    by (auto dest: list_all2_lengthD)
  with a b k10 k2 c show ?thesis by blast
qed

section \<open>Output folders\<close>

lemma folder_remove_log: "fst (folder_remove w f reqs) = reqs @ [Rmtree (path f)]"
  by (simp add: folder_remove_def request_def split: option.splits)

lemma folder_create_log: "fst (folder_create w f reqs) = reqs @ [Mkdir (path f)]"
  by (simp add: folder_create_def request_def split: option.splits)

lemma write_text_log: "fst (write_text w q t reqs) = reqs @ [WriteText q t]"
  by (simp add: write_text_def request_def split: option.splits)

lemma for_each_upper:
  assumes "\<And>x reqs. x \<in> set xs \<Longrightarrow> set (fst (body x reqs)) \<subseteq> set reqs \<union> A x"
  shows "set (fst (for_each body xs reqs)) \<subseteq> set reqs \<union> (\<Union>x \<in> set xs. A x)"
  using assms
proof (induction xs arbitrary: reqs)
  case Nil
  show ?case by simp
next
  case (Cons x xs)
  obtain reqs' e where b: "body x reqs = (reqs', e)" by (cases "body x reqs")
  from Cons.prems[of x reqs] b have l: "set reqs' \<subseteq> set reqs \<union> A x" by simp
  show ?case
  proof (cases e)
    case None
    from Cons.IH[of reqs'] Cons.prems
    have "set (fst (for_each body xs reqs')) \<subseteq> set reqs' \<union> (\<Union>x \<in> set xs. A x)" by simp
    with l show ?thesis by (auto simp: b None)
  next
    case (Some err)
    with l show ?thesis by (auto simp: b)
  qed
qed

lemma for_each_lower:
  assumes "\<And>x reqs. x \<in> set xs \<Longrightarrow> set reqs \<subseteq> set (fst (body x reqs))"
  shows "set reqs \<subseteq> set (fst (for_each body xs reqs))"
  using assms
proof (induction xs arbitrary: reqs)
  case Nil
  show ?case by simp
next
  case (Cons x xs)
  obtain reqs' e where b: "body x reqs = (reqs', e)" by (cases "body x reqs")
  from Cons.prems[of x reqs] b have l: "set reqs \<subseteq> set reqs'" by simp
  show ?case
  proof (cases e)
    case None
    from Cons.IH[of reqs'] Cons.prems
    have "set reqs' \<subseteq> set (fst (for_each body xs reqs'))" by simp
    with l show ?thesis by (auto simp: b None)
  next
    case (Some err)
    with l show ?thesis by (auto simp: b)
  qed
qed

lemma for_each_all:
  assumes "snd (for_each body xs reqs) = None" "x \<in> set xs"
    "\<And>y reqs. y \<in> set xs \<Longrightarrow> set reqs \<union> B y \<subseteq> set (fst (body y reqs))"
  shows "B x \<subseteq> set (fst (for_each body xs reqs))"
  using assms
proof (induction xs arbitrary: reqs)
  case Nil
  then show ?case by simp
next
  case (Cons y ys)
  obtain reqs' e where b: "body y reqs = (reqs', e)" by (cases "body y reqs")
  from Cons.prems(1) b have e: "e = None" by (cases e) simp_all
  with Cons.prems(1) b have rest: "snd (for_each body ys reqs') = None" by simp
  have mono: "set l \<subseteq> set (fst (for_each body ys l))" for l
    by (rule for_each_lower) (use Cons.prems(3) in auto)
  show ?case
  proof (cases "x = y")
    case True
    from Cons.prems(3)[of y reqs] b have "B y \<subseteq> set reqs'" by simp
    with mono[of reqs'] True show ?thesis by (auto simp: b e)
  next
    case False
    with Cons.prems(2) have "x \<in> set ys" by simp
    from Cons.IH[OF rest this] Cons.prems(3)
    have "B x \<subseteq> set (fst (for_each body ys reqs'))" by simp
    then show ?thesis by (simp add: b e)
  qed
qed

lemma write_files_log:
  "set (fst (for_each (\<lambda>(proto, ps). write_text w (g proto) (h ps)) listing reqs)) \<subseteq>
     set reqs \<union> {c. \<exists>q t. c = WriteText q t}"
  using for_each_upper[of listing "\<lambda>(proto, ps). write_text w (g proto) (h ps)"
      "\<lambda>x. {c. \<exists>q t. c = WriteText q t}" reqs]
  by (auto simp: write_text_log split: prod.splits if_splits)

lemma write_files_mono:
  "set reqs \<subseteq> set (fst (for_each (\<lambda>(proto, ps). write_text w (g proto) (h ps)) listing reqs))"
  by (rule for_each_lower) (auto simp: write_text_log split: prod.splits)

lemma write_folder_upper:
  "set (fst (write_folder w listing f reqs)) \<subseteq>
     set reqs \<union> ({Mkdir (path f)} \<union> {c. \<exists>q t. c = WriteText q t})"
proof -
  obtain reqs' e where c: "folder_create w f reqs = (reqs', e)" by (cases "folder_create w f reqs")
  with folder_create_log[of w f reqs] have l: "reqs' = reqs @ [Mkdir (path f)]" by simp
  show ?thesis
  proof (cases e)
    case None
    with c l write_files_log[of w "\<lambda>proto. path f @ [proto @ ''.txt'']" "file_text f" listing reqs']
    show ?thesis by (auto simp: write_folder_def)
  next
    case (Some err)
    with c l show ?thesis by (auto simp: write_folder_def)
  qed
qed

lemma write_folder_lower:
  "set reqs \<union> {Mkdir (path f)} \<subseteq> set (fst (write_folder w listing f reqs))"
proof -
  obtain reqs' e where c: "folder_create w f reqs = (reqs', e)" by (cases "folder_create w f reqs")
  with folder_create_log[of w f reqs] have l: "reqs' = reqs @ [Mkdir (path f)]" by simp
  show ?thesis
  proof (cases e)
    case None
    with c l write_files_mono[of reqs' w "\<lambda>proto. path f @ [proto @ ''.txt'']" "file_text f" listing]
    show ?thesis by (auto simp: write_folder_def)
  next
    case (Some err)
    with c l show ?thesis by (auto simp: write_folder_def)
  qed
qed

lemma save_proxies_mkdir:
  assumes "save_proxies w st [] = (calls, outcome)" "Mkdir x \<in> set calls"
  shows "x \<in> path ` set (enabled_folders st)"
proof -
  have r: "set (fst (for_each (folder_remove w) fl reqs)) \<subseteq>
             set reqs \<union> (\<Union>f \<in> set fl. {Rmtree (path f)})" for fl reqs
    by (rule for_each_upper) (simp add: folder_remove_log)
  have c: "set (fst (for_each (write_folder w listing) fl reqs)) \<subseteq>
             set reqs \<union> (\<Union>f \<in> set fl. {Mkdir (path f)} \<union> {c. \<exists>q t. c = WriteText q t})"
    for fl reqs listing
    by (rule for_each_upper) (rule write_folder_upper)
  from assms(1) have "set calls \<subseteq>
      (\<Union>f \<in> set (all_folders st). {Rmtree (path f)}) \<union>
      (\<Union>f \<in> set (enabled_folders st). {Mkdir (path f)} \<union> {c. \<exists>q t. c = WriteText q t})"
  proof (cases "sorted_proxies st")
    case (Inl e)
    with assms(1) show ?thesis by (simp add: save_proxies_def)
  next
    case (Inr listing)
    show ?thesis
    proof (cases "temp_dir w")
      case None
      with assms(1) Inr show ?thesis by (simp add: save_proxies_def)
    next
      case (Some tmp)
      obtain reqs' e where f: "for_each (folder_remove w) (all_folders st) [] = (reqs', e)"
        by (cases "for_each (folder_remove w) (all_folders st) []")
      from r[of "all_folders st" "[]"] f
      have l: "set reqs' \<subseteq> (\<Union>f \<in> set (all_folders st). {Rmtree (path f)})" by simp
      show ?thesis
      proof (cases e)
        case None
        with assms(1) Inr Some f
        have "calls = fst (for_each (write_folder w listing) (enabled_folders st) reqs')"
          by (simp add: save_proxies_def)
        with c[where listing = listing and fl = "enabled_folders st" and reqs = reqs'] l
        show ?thesis by blast
      next
        case (Some err)
        with assms(1) Inr \<open>temp_dir w = Some tmp\<close> f have "calls = reqs'"
          by (simp add: save_proxies_def)
        with l show ?thesis by blast
      qed
    qed
  qed
  with assms(2) show ?thesis by auto
qed

lemma save_proxies_complete:
  assumes "save_proxies w st [] = (calls, None)"
  shows "(\<forall>f \<in> set (all_folders st). Rmtree (path f) \<in> set calls) \<and>
         (\<forall>f \<in> set (enabled_folders st). Mkdir (path f) \<in> set calls)"
proof -
  from assms obtain listing where li: "sorted_proxies st = Inr listing"
    by (cases "sorted_proxies st") (simp_all add: save_proxies_def)
  from assms li obtain tmp where tm: "temp_dir w = Some tmp"
    by (cases "temp_dir w") (simp_all add: save_proxies_def)
  obtain reqs' e where f: "for_each (folder_remove w) (all_folders st) [] = (reqs', e)"
    by (cases "for_each (folder_remove w) (all_folders st) []")
  from assms li tm f have e: "e = None" by (cases e) (simp_all add: save_proxies_def)
  with assms li tm f
  have c: "for_each (write_folder w listing) (enabled_folders st) reqs' = (calls, None)"
    by (simp add: save_proxies_def)
  have "{Rmtree (path g)} \<subseteq> set reqs'" if "g \<in> set (all_folders st)" for g
    using for_each_all[of "folder_remove w" "all_folders st" "[]" g "\<lambda>f. {Rmtree (path f)}"]
      that f e
    by (simp add: folder_remove_log)
  moreover have "set reqs' \<subseteq> set calls"
    using for_each_lower[where xs = "enabled_folders st" and reqs = reqs' and
        body = "write_folder w listing"]
      write_folder_lower[of _ _ w listing] c
    by auto
  moreover have "{Mkdir (path g)} \<subseteq> set calls" if "g \<in> set (enabled_folders st)" for g
    using for_each_all[of "write_folder w listing" "enabled_folders st" reqs' g
        "\<lambda>f. {Mkdir (path f)}"] that c write_folder_lower[of _ _ w listing]
    by simp
  ultimately show ?thesis by blast
qed

lemma init_folders:
  assumes "init t mc sbs sp a b c d h s4 s5 = Inr st0"
  shows "path ` set (all_folders st0) =
           {[sp, ''proxies''], [sp, ''proxies_anonymous''], [sp, ''proxies_geolocation''],
            [sp, ''proxies_geolocation_anonymous'']}"
    and "[sp, ''proxies''] \<in> path ` set (enabled_folders st0) \<longleftrightarrow> a"
    and "[sp, ''proxies_anonymous''] \<in> path ` set (enabled_folders st0) \<longleftrightarrow> b"
    and "[sp, ''proxies_geolocation''] \<in> path ` set (enabled_folders st0) \<longleftrightarrow> c"
    and "[sp, ''proxies_geolocation_anonymous''] \<in> path ` set (enabled_folders st0) \<longleftrightarrow> d"
  using assms
  by (auto simp: init_def Let_def Folder_def path_name_def split: if_splits)

lemma init_c5:
  "init 10 900 False ''out'' True False False False (Some ''http://a'') None None = Inr st_c5"
  by code_simp

text \<open>
  Claim C5, as stated, has the directory of a disabled category neither removed nor
  created. \<open>save_proxies\<close> removes every folder of \<open>all_folders\<close> before it creates the
  enabled ones: with only \<open>proxies\<close> enabled, it asks for the tree at
  \<open>proxies_anonymous\<close> to be removed, and where that request returns, the directory was
  there and is gone.
\<close>

theorem C5_disabled_folder_removed_counterexample:
  "init 10 900 False ''out'' True False False False (Some ''http://a'') None None = Inr st_c5 \<and>
   save_proxies probe404 st_c5 [] =
     ([Rmtree [''out'', ''proxies''], Rmtree [''out'', ''proxies_anonymous''],
       Rmtree [''out'', ''proxies_geolocation''],
       Rmtree [''out'', ''proxies_geolocation_anonymous''],
       Mkdir [''out'', ''proxies''], WriteText [''out'', ''proxies'', ''http.txt''] []], None) \<and>
   fs_answer probe404 [Rmtree [''out'', ''proxies'']] (Rmtree [''out'', ''proxies_anonymous'']) = None"
  by code_simp

text \<open>
  Claim C5, amended. During output writing the creation of a directory is requested only
  for the folders of the enabled categories, in every run and however it ends. Removal is
  not limited to them: when \<open>save_proxies\<close> returns, it has requested the removal of
  all four category folders, enabled or not, and the creation of each enabled one.
\<close>

theorem C5_remove_all_create_enabled:
  assumes "init t mc sbs sp a b c d h s4 s5 = Inr st0"
    "all_folders st = all_folders st0" "enabled_folders st = enabled_folders st0"
    "save_proxies w st [] = (calls, outcome)"
  shows "(Mkdir [sp, ''proxies''] \<in> set calls \<longrightarrow> a) \<and>
         (Mkdir [sp, ''proxies_anonymous''] \<in> set calls \<longrightarrow> b) \<and>
         (Mkdir [sp, ''proxies_geolocation''] \<in> set calls \<longrightarrow> c) \<and>
         (Mkdir [sp, ''proxies_geolocation_anonymous''] \<in> set calls \<longrightarrow> d) \<and>
         (outcome = None \<longrightarrow>
            Rmtree [sp, ''proxies''] \<in> set calls \<and>
            Rmtree [sp, ''proxies_anonymous''] \<in> set calls \<and>
            Rmtree [sp, ''proxies_geolocation''] \<in> set calls \<and>
            Rmtree [sp, ''proxies_geolocation_anonymous''] \<in> set calls \<and>
            (a \<longrightarrow> Mkdir [sp, ''proxies''] \<in> set calls) \<and>
            (b \<longrightarrow> Mkdir [sp, ''proxies_anonymous''] \<in> set calls) \<and>
            (c \<longrightarrow> Mkdir [sp, ''proxies_geolocation''] \<in> set calls) \<and>
            (d \<longrightarrow> Mkdir [sp, ''proxies_geolocation_anonymous''] \<in> set calls))"
proof -
  note f = init_folders[OF assms(1)]
  have mk: "Mkdir x \<in> set calls \<Longrightarrow> x \<in> path ` set (enabled_folders st0)" for x
    using save_proxies_mkdir[OF assms(4)] assms(3) by simp
  have only: "(Mkdir [sp, ''proxies''] \<in> set calls \<longrightarrow> a) \<and>
         (Mkdir [sp, ''proxies_anonymous''] \<in> set calls \<longrightarrow> b) \<and>
         (Mkdir [sp, ''proxies_geolocation''] \<in> set calls \<longrightarrow> c) \<and>
         (Mkdir [sp, ''proxies_geolocation_anonymous''] \<in> set calls \<longrightarrow> d)"
    using mk f(2-5) by blast
  have complete: "Rmtree [sp, ''proxies''] \<in> set calls \<and>
            Rmtree [sp, ''proxies_anonymous''] \<in> set calls \<and>
            Rmtree [sp, ''proxies_geolocation''] \<in> set calls \<and>
            Rmtree [sp, ''proxies_geolocation_anonymous''] \<in> set calls \<and>
            (a \<longrightarrow> Mkdir [sp, ''proxies''] \<in> set calls) \<and>
            (b \<longrightarrow> Mkdir [sp, ''proxies_anonymous''] \<in> set calls) \<and>
            (c \<longrightarrow> Mkdir [sp, ''proxies_geolocation''] \<in> set calls) \<and>
            (d \<longrightarrow> Mkdir [sp, ''proxies_geolocation_anonymous''] \<in> set calls)"
    if "outcome = None"
  proof -
    from assms(4) that have "save_proxies w st [] = (calls, None)" by simp
    from save_proxies_complete[OF this]
    have r: "\<And>x. x \<in> path ` set (all_folders st0) \<Longrightarrow> Rmtree x \<in> set calls"
      and m: "\<And>x. x \<in> path ` set (enabled_folders st0) \<Longrightarrow> Mkdir x \<in> set calls"
      unfolding assms(2,3) by auto
    have all: "[sp, ''proxies''] \<in> path ` set (all_folders st0)"
      "[sp, ''proxies_anonymous''] \<in> path ` set (all_folders st0)"
      "[sp, ''proxies_geolocation''] \<in> path ` set (all_folders st0)"
      "[sp, ''proxies_geolocation_anonymous''] \<in> path ` set (all_folders st0)"
      unfolding f(1) by simp_all
    from r[OF all(1)] r[OF all(2)] r[OF all(3)] r[OF all(4)] m f(2-5)
    show ?thesis by blast
  qed
  from only complete show ?thesis by blast
qed

theorem C5_remove_all_create_enabled_witness:
  "init 10 900 False ''out'' True False False False (Some ''http://a'') None None = Inr st_c5 \<and>
   save_proxies probe404 st_c5 [] =
     ([Rmtree [''out'', ''proxies''], Rmtree [''out'', ''proxies_anonymous''],
       Rmtree [''out'', ''proxies_geolocation''],
       Rmtree [''out'', ''proxies_geolocation_anonymous''],
       Mkdir [''out'', ''proxies''], WriteText [''out'', ''proxies'', ''http.txt''] []], None) \<and>
   Mkdir [''out'', ''proxies''] \<in> set
     [Rmtree [''out'', ''proxies''], Rmtree [''out'', ''proxies_anonymous''],
       Rmtree [''out'', ''proxies_geolocation''],
       Rmtree [''out'', ''proxies_geolocation_anonymous''],
       Mkdir [''out'', ''proxies''], WriteText [''out'', ''proxies'', ''http.txt''] []] \<and>
   Rmtree [''out'', ''proxies_anonymous''] \<in> set
     [Rmtree [''out'', ''proxies''], Rmtree [''out'', ''proxies_anonymous''],
       Rmtree [''out'', ''proxies_geolocation''],
       Rmtree [''out'', ''proxies_geolocation_anonymous''],
       Mkdir [''out'', ''proxies''], WriteText [''out'', ''proxies'', ''http.txt''] []]"
proof -
  have s: "save_proxies probe404 st_c5 [] =
     ([Rmtree [''out'', ''proxies''], Rmtree [''out'', ''proxies_anonymous''],
       Rmtree [''out'', ''proxies_geolocation''],
       Rmtree [''out'', ''proxies_geolocation_anonymous''],
       Mkdir [''out'', ''proxies''], WriteText [''out'', ''proxies'', ''http.txt''] []], None)"
    by code_simp
  note t = C5_remove_all_create_enabled[OF init_c5 refl refl s]
  from t[THEN conjunct2, THEN conjunct2, THEN conjunct2, THEN conjunct2, rule_format, OF refl]
  have "Mkdir [''out'', ''proxies''] \<in> set
     [Rmtree [''out'', ''proxies''], Rmtree [''out'', ''proxies_anonymous''],
       Rmtree [''out'', ''proxies_geolocation''],
       Rmtree [''out'', ''proxies_geolocation_anonymous''],
       Mkdir [''out'', ''proxies''], WriteText [''out'', ''proxies'', ''http.txt''] []] \<and>
   Rmtree [''out'', ''proxies_anonymous''] \<in> set
     [Rmtree [''out'', ''proxies''], Rmtree [''out'', ''proxies_anonymous''],
       Rmtree [''out'', ''proxies_geolocation''],
       Rmtree [''out'', ''proxies_geolocation_anonymous''],
       Mkdir [''out'', ''proxies''], WriteText [''out'', ''proxies'', ''http.txt''] []]"
    by blast
  with init_c5 s show ?thesis by blast
qed

end
